theory Spec2Isabelle
  imports Main "HOL-Library.Word" "HOL-Library.Multiset"
begin

section \<open>Paths and extensions\<close>

text \<open>
  The program is a Node.js script that exists in two revisions: \<^verbatim>\<open>src/optimize-images.js\<close>
  (discovery by glob patterns, one loop over the files) and \<^verbatim>\<open>src/unnamed/part_000\<close>
  (discovery by a worklist, files handled in batches of 10). The function
  \<^verbatim>\<open>processImage\<close> is the same text in both.

  Paths and file names are strings of bytes. \<^verbatim>\<open>String.prototype.toLowerCase\<close> is
  modelled on the ASCII letters, which is all that can turn a name into one of the six
  extensions.
\<close>

type_synonym path = string
type_synonym bytes = "8 word list"

definition MAX_WIDTH :: nat where
  "MAX_WIDTH = 2500"

definition IMAGE_EXTENSIONS :: "string list" where
  "IMAGE_EXTENSIONS = [''.jpg'', ''.jpeg'', ''.png'', ''.gif'', ''.webp'', ''.svg'']"

definition toLowerCase_char :: "char \<Rightarrow> char" where
  "toLowerCase_char c =
     (case map_of (zip ''ABCDEFGHIJKLMNOPQRSTUVWXYZ'' ''abcdefghijklmnopqrstuvwxyz'') c of
        None \<Rightarrow> c
      | Some l \<Rightarrow> l)"

definition toLowerCase :: "string \<Rightarrow> string" where
  "toLowerCase s = map toLowerCase_char s"

text \<open>
  \<^verbatim>\<open>path.extname\<close> (POSIX): trailing slashes are ignored, the last path segment is
  taken, and the extension runs from the last dot of that segment to its end. The result
  is empty when the segment has no dot, when its last dot is its first character, and
  when the segment is \<^verbatim>\<open>..\<close>.
\<close>

definition last_segment :: "path \<Rightarrow> string" where
  "last_segment p =
     rev (takeWhile (\<lambda>c. c \<noteq> CHR ''/'') (dropWhile (\<lambda>c. c = CHR ''/'') (rev p)))"

definition extname :: "path \<Rightarrow> string" where
  "extname p =
     (let b = last_segment p in
      if CHR ''.'' \<notin> set b then []
      else
        let suffix = rev (takeWhile (\<lambda>c. c \<noteq> CHR ''.'') (rev b));
            stem = rev (tl (dropWhile (\<lambda>c. c \<noteq> CHR ''.'') (rev b)))
        in if stem = [] \<or> b = ''..'' then [] else CHR ''.'' # suffix)"

section \<open>The file store, the console and the external codecs\<close>

text \<open>
  A JavaScript \<^verbatim>\<open>Error\<close> is its message. The store maps a path to the bytes of the
  file there. Everything the script prints and every call it makes on the file system or
  on a codec is recorded, in order, as an event.
\<close>

datatype error = Error (message: string)

datatype plugin =
    Mozjpeg nat
  | Pngquant nat nat
  | Gifsicle
  | Svgo
  | Webp nat

datatype line =
    Processing path
  | WidthOk nat
  | Resizing nat
  | Optimized nat nat
  | KeepOriginal
  | Completed path
  | ErrorProcessing path string
  | Starting
  | StartTime
  | CurrentDirectory path
  | ErrorReadingDirectory path string
  | Found nat
  | BatchHeader nat nat
  | Progress nat nat nat
  | ProgressElapsed nat nat nat
  | EstimatedCompletion
  | AllProcessed
  | TotalTime
  | Started
  | Finished
  | ErrorFinding string
  | AnErrorOccurred string

datatype call =
    Metadata path
  | ToFile path path
  | Unlink path
  | Rename path path
  | Stat path
  | ReadFile path
  | WriteFile path bytes
  | ImageminBuffer "plugin list"

datatype event = Log line | Call call

type_synonym store = "path \<rightharpoonup> bytes"

text \<open>
  The codecs are outside the repository; they are parameters. Each is a function of the
  bytes it is given, so it is deterministic.
  \<^item> \<open>probe_width\<close>: \<^verbatim>\<open>sharp(p).metadata()\<close>, the pixel width or a decode error.
  \<^item> \<open>resize_to\<close>: \<^verbatim>\<open>sharp(p).resize({width, withoutEnlargement}).toFile(t)\<close>. It
    returns the bytes written to \<open>t\<close>, or an error together with whatever partial
    content the failed write left at \<open>t\<close> (\<open>None\<close> when it left nothing).
  \<^item> \<open>run_plugin\<close>: one imagemin plugin applied to a buffer.
  \<^item> \<open>process_cwd\<close>: \<^verbatim>\<open>process.cwd()\<close>, which throws when the working directory is gone.
  \<^item> \<open>elapsed_ms\<close>: \<^verbatim>\<open>Date.now() - startTime.getTime()\<close> at the moment the estimate for
    the \<open>n\<close>-th completed file is computed.
\<close>

record env =
  probe_width :: "bytes \<Rightarrow> error + nat"
  resize_to :: "nat \<Rightarrow> bytes \<Rightarrow> (error \<times> bytes option) + bytes"
  run_plugin :: "plugin \<Rightarrow> bytes \<Rightarrow> error + bytes"
  process_cwd :: "error + path"
  elapsed_ms :: "nat \<Rightarrow> nat"

text \<open>
  A step of the script takes the store and returns a result or a thrown error, the new
  store and the events it produced. \<open>bind\<close> is sequencing: a thrown error skips the rest.
\<close>

type_synonym 'a io = "store \<Rightarrow> (error + 'a) \<times> store \<times> event list"

definition return :: "'a \<Rightarrow> 'a io" where
  "return x = (\<lambda>fs. (Inr x, fs, []))"

definition bind :: "'a io \<Rightarrow> ('a \<Rightarrow> 'b io) \<Rightarrow> 'b io" where
  "bind m f = (\<lambda>fs. case m fs of
       (Inl e, fs1, out1) \<Rightarrow> (Inl e, fs1, out1)
     | (Inr x, fs1, out1) \<Rightarrow> (case f x fs1 of (r, fs2, out2) \<Rightarrow> (r, fs2, out1 @ out2)))"

definition console_log :: "line \<Rightarrow> unit io" where
  "console_log l = (\<lambda>fs. (Inr (), fs, [Log l]))"

definition ENOENT :: "path \<Rightarrow> error" where
  "ENOENT p = Error (''ENOENT: no such file or directory '' @ p)"

definition sharp_metadata :: "env \<Rightarrow> path \<Rightarrow> nat io" where
  "sharp_metadata env p = (\<lambda>fs. case fs p of
       None \<Rightarrow> (Inl (Error ''Input file is missing''), fs, [Call (Metadata p)])
     | Some b \<Rightarrow> (probe_width env b, fs, [Call (Metadata p)]))"

definition sharp_resize_toFile :: "env \<Rightarrow> path \<Rightarrow> nat \<Rightarrow> path \<Rightarrow> unit io" where
  "sharp_resize_toFile env p w t = (\<lambda>fs. case fs p of
       None \<Rightarrow> (Inl (Error ''Input file is missing''), fs, [Call (ToFile p t)])
     | Some b \<Rightarrow> (case resize_to env w b of
           Inl (e, None) \<Rightarrow> (Inl e, fs, [Call (ToFile p t)])
         | Inl (e, Some part) \<Rightarrow> (Inl e, fs(t \<mapsto> part), [Call (ToFile p t)])
         | Inr resized \<Rightarrow> (Inr (), fs(t \<mapsto> resized), [Call (ToFile p t)])))"

definition unlinkSync :: "path \<Rightarrow> unit io" where
  "unlinkSync p = (\<lambda>fs. case fs p of
       None \<Rightarrow> (Inl (ENOENT p), fs, [Call (Unlink p)])
     | Some b \<Rightarrow> (Inr (), fs(p := None), [Call (Unlink p)]))"

definition renameSync :: "path \<Rightarrow> path \<Rightarrow> unit io" where
  "renameSync a b = (\<lambda>fs. case fs a of
       None \<Rightarrow> (Inl (ENOENT a), fs, [Call (Rename a b)])
     | Some c \<Rightarrow> (Inr (), (fs(a := None))(b \<mapsto> c), [Call (Rename a b)]))"

definition statSync_size :: "path \<Rightarrow> nat io" where
  "statSync_size p = (\<lambda>fs. case fs p of
       None \<Rightarrow> (Inl (ENOENT p), fs, [Call (Stat p)])
     | Some b \<Rightarrow> (Inr (length b), fs, [Call (Stat p)]))"

definition readFileSync :: "path \<Rightarrow> bytes io" where
  "readFileSync p = (\<lambda>fs. case fs p of
       None \<Rightarrow> (Inl (ENOENT p), fs, [Call (ReadFile p)])
     | Some b \<Rightarrow> (Inr b, fs, [Call (ReadFile p)]))"

definition writeFileSync :: "path \<Rightarrow> bytes \<Rightarrow> unit io" where
  "writeFileSync p b = (\<lambda>fs. (Inr (), fs(p \<mapsto> b), [Call (WriteFile p b)]))"

text \<open>\<^verbatim>\<open>imagemin.buffer\<close> pipes the buffer through the plugins, in order.\<close>

fun pipe_plugins :: "env \<Rightarrow> plugin list \<Rightarrow> bytes \<Rightarrow> error + bytes" where
  "pipe_plugins env [] b = Inr b"
| "pipe_plugins env (pl # pls) b =
     (case run_plugin env pl b of Inl e \<Rightarrow> Inl e | Inr b' \<Rightarrow> pipe_plugins env pls b')"

definition imagemin_buffer :: "env \<Rightarrow> bytes \<Rightarrow> plugin list \<Rightarrow> bytes io" where
  "imagemin_buffer env b plugins = (\<lambda>fs. (pipe_plugins env plugins b, fs, [Call (ImageminBuffer plugins)]))"

section \<open>The single-image transformer\<close>

text \<open>
  \<^verbatim>\<open>processImage\<close>, statement by statement. \<open>select_plugins\<close> is the chain of
  \<^verbatim>\<open>if\<close>/\<^verbatim>\<open>else if\<close> that fills the \<^verbatim>\<open>plugins\<close> array; \<open>resize_step\<close> and
  \<open>optimize_step\<close> are the two guarded blocks; \<open>processImage_try\<close> is the body of the
  \<^verbatim>\<open>try\<close> and \<open>processImage\<close> adds the \<^verbatim>\<open>catch\<close>.
\<close>

definition select_plugins :: "string \<Rightarrow> plugin list" where
  "select_plugins extension =
     (if extension \<in> set [''.jpg'', ''.jpeg''] then [Mozjpeg 80]
      else if extension = ''.png'' then [Pngquant 65 80]
      else if extension = ''.gif'' then [Gifsicle]
      else if extension = ''.svg'' then [Svgo]
      else if extension = ''.webp'' then [Webp 80]
      else [])"

definition resize_step :: "env \<Rightarrow> path \<Rightarrow> nat \<Rightarrow> unit io" where
  "resize_step env imagePath width =
     (let tempPath = imagePath @ ''.temp'' in
      if width > MAX_WIDTH then
        bind (sharp_resize_toFile env imagePath MAX_WIDTH tempPath) (\<lambda>_.
        bind (unlinkSync imagePath) (\<lambda>_.
        renameSync tempPath imagePath))
      else return ())"

definition commit_step :: "path \<Rightarrow> nat \<Rightarrow> bytes \<Rightarrow> unit io" where
  "commit_step imagePath originalSize optimizedBuffer =
     (if length optimizedBuffer < originalSize then
        bind (writeFileSync imagePath optimizedBuffer) (\<lambda>_.
        bind (statSync_size imagePath) (\<lambda>newSize.
        console_log (Optimized originalSize newSize)))
      else console_log KeepOriginal)"

definition optimize_step :: "env \<Rightarrow> path \<Rightarrow> string \<Rightarrow> unit io" where
  "optimize_step env imagePath extension =
     (if extension \<in> set [''.jpg'', ''.jpeg'', ''.png'', ''.gif'', ''.svg''] then
        bind (statSync_size imagePath) (\<lambda>originalSize.
        let plugins = select_plugins extension in
        if length plugins > 0 then
          bind (readFileSync imagePath) (\<lambda>buf.
          bind (imagemin_buffer env buf plugins) (\<lambda>optimizedBuffer.
          commit_step imagePath originalSize optimizedBuffer))
        else return ())
      else return ())"

definition processImage_try :: "env \<Rightarrow> path \<Rightarrow> unit io" where
  "processImage_try env imagePath =
     (let extension = toLowerCase (extname imagePath) in
      if extension \<notin> set IMAGE_EXTENSIONS then return ()
      else
        bind (console_log (Processing imagePath)) (\<lambda>_.
        bind (sharp_metadata env imagePath) (\<lambda>width.
        bind (console_log (if width \<le> MAX_WIDTH then WidthOk width else Resizing width)) (\<lambda>_.
        bind (resize_step env imagePath width) (\<lambda>_.
        bind (optimize_step env imagePath extension) (\<lambda>_.
        console_log (Completed imagePath)))))))"

definition processImage :: "env \<Rightarrow> path \<Rightarrow> store \<Rightarrow> store \<times> event list" where
  "processImage env imagePath fs =
     (case processImage_try env imagePath fs of
        (Inl e, fs', out) \<Rightarrow> (fs', out @ [Log (ErrorProcessing imagePath (message e))])
      | (Inr _, fs', out) \<Rightarrow> (fs', out))"

section \<open>Discovery\<close>

text \<open>
  The directory tree under the working directory, as \<^verbatim>\<open>fs.readdirSync\<close> with
  \<^verbatim>\<open>withFileTypes\<close> shows it: a regular file, a directory with its entries, a directory
  whose listing throws (with the message: a permission or input/output error), a symbolic
  link to a directory (with the node it points to), or any other entry that is neither a
  regular file nor a directory (a socket, a link to a file, a dangling link). A directory
  entry that is a symbolic link answers false to both \<^verbatim>\<open>isDirectory()\<close> and
  \<^verbatim>\<open>isFile()\<close>; listing a path follows links. The tree is what discovery reads; the
  store above holds the contents that \<^verbatim>\<open>processImage\<close> reads and writes.
\<close>

datatype node =
    File
  | Other
  | Dir "(string \<times> node) list"
  | DirNoList string
  | Symlink node

fun readdirSync :: "node \<Rightarrow> error + (string \<times> node) list" where
  "readdirSync (Dir entries) = Inr entries"
| "readdirSync (DirNoList msg) = Inl (Error msg)"
| "readdirSync (Symlink target) = readdirSync target"
| "readdirSync File = Inl (Error ''ENOTDIR: not a directory, scandir'')"
| "readdirSync Other = Inl (Error ''ENOTDIR: not a directory, scandir'')"

fun isDirectory :: "node \<Rightarrow> bool" where
  "isDirectory (Dir entries) = True"
| "isDirectory (DirNoList msg) = True"
| "isDirectory n = False"

fun isFile :: "node \<Rightarrow> bool" where
  "isFile File = True"
| "isFile n = False"

text \<open>
  \<^verbatim>\<open>path.join(currentDir, entry.name)\<close> where \<open>currentDir\<close> is \<^verbatim>\<open>.\<close> or an earlier
  result of the same call and the name is a directory entry's: the leading \<^verbatim>\<open>.\<close> is
  normalised away.
\<close>

definition path_join :: "path \<Rightarrow> string \<Rightarrow> path" where
  "path_join currentDir name = (if currentDir = ''.'' then name else currentDir @ ''/'' @ name)"

subsection \<open>The worklist of \<^verbatim>\<open>getAllFilesIterative\<close>\<close>

text \<open>
  The queue holds the paths still to list; the model keeps with each path the node it
  names. \<open>scan_entries\<close> is the inner \<^verbatim>\<open>for\<close> over the entries of one directory and
  \<open>walk\<close> the \<^verbatim>\<open>while\<close> over the queue; a listing that throws is logged and the loop
  goes on with the next queued directory.
\<close>

fun scan_entries ::
  "path \<Rightarrow> (string \<times> node) list \<Rightarrow> (path \<times> node) list \<Rightarrow> path list \<Rightarrow> (path \<times> node) list \<times> path list" where
  "scan_entries currentDir [] queue files = (queue, files)"
| "scan_entries currentDir ((name, n) # entries) queue files =
     (let fullPath = path_join currentDir name in
      if isDirectory n then scan_entries currentDir entries (queue @ [(fullPath, n)]) files
      else if isFile n then
        (let ext = toLowerCase (extname name) in
         if ext \<in> set IMAGE_EXTENSIONS then scan_entries currentDir entries queue (files @ [fullPath])
         else scan_entries currentDir entries queue files)
      else scan_entries currentDir entries queue files)"

fun weight :: "node \<Rightarrow> nat" where
  "weight (Dir entries) = Suc (sum_list (map (\<lambda>(name, n). weight n) entries))"
| "weight (Symlink target) = Suc (weight target)"
| "weight n = 1"

definition queue_weight :: "(path \<times> node) list \<Rightarrow> nat" where
  "queue_weight queue = sum_list (map (\<lambda>(p, n). weight n) queue)"

function walk :: "(path \<times> node) list \<Rightarrow> path list \<Rightarrow> event list \<Rightarrow> path list \<times> event list" where
  "walk [] files out = (files, out)"
| "walk ((currentDir, n) # queue) files out =
     (case readdirSync n of
        Inl e \<Rightarrow> walk queue files (out @ [Log (ErrorReadingDirectory currentDir (message e))])
      | Inr entries \<Rightarrow>
          walk (fst (scan_entries currentDir entries queue files))
               (snd (scan_entries currentDir entries queue files)) out)"
  by pat_completeness auto
termination
proof (relation "measure (\<lambda>(queue, files, out). queue_weight queue)")
  show "wf (measure (\<lambda>(queue, files, out). queue_weight queue))"
    by simp
next
  fix currentDir n queue files out e
  show "((queue, files, out @ [Log (ErrorReadingDirectory currentDir (message e))]),
          (currentDir, n) # queue, files, out)
        \<in> measure (\<lambda>(queue, files, out). queue_weight queue)"
    by (cases n) (simp_all add: queue_weight_def)
next
  fix currentDir n queue files out entries
  assume listed: "readdirSync n = Inr entries"
  have scan: "queue_weight (fst (scan_entries currentDir es q fl))
                \<le> queue_weight q + sum_list (map (\<lambda>(name, n). weight n) es)" for es q fl
  proof (induction es arbitrary: q fl)
    case Nil
    show ?case by simp
  next
    case (Cons a es)
    obtain name m where a: "a = (name, m)"
      by (cases a)
    show ?case
      using Cons.IH [of "q @ [(path_join currentDir name, m)]" fl] Cons.IH [of q fl]
        Cons.IH [of q "fl @ [path_join currentDir name]"]
      by (simp add: a Let_def queue_weight_def)
  qed
  have "sum_list (map (\<lambda>(name, n). weight n) es) < weight m" if "readdirSync m = Inr es" for m es
    using that by (induction m) auto
  from this [OF listed] scan [of entries queue files]
  show "((fst (scan_entries currentDir entries queue files),
           snd (scan_entries currentDir entries queue files), out),
          (currentDir, n) # queue, files, out)
        \<in> measure (\<lambda>(queue, files, out). queue_weight queue)"
    by (simp add: queue_weight_def)
qed

definition getAllFilesIterative :: "node \<Rightarrow> path list \<times> event list" where
  "getAllFilesIterative dir = walk [(''.'', dir)] [] []"

subsection \<open>The glob patterns of \<^verbatim>\<open>src/optimize-images.js\<close>\<close>

text \<open>
  \<^verbatim>\<open>glob\<close> is a library outside the repository; the script uses its callback
  interface. What is modelled is the behaviour of the call the script makes,
  \<^verbatim>\<open>glob('**/*' + ext, {nocase: true, absolute: true})\<close>:
  \<^item> \<^verbatim>\<open>*\<close> and \<^verbatim>\<open>**\<close> do not match a name that starts with a dot (the option
    \<^verbatim>\<open>dot\<close> is not set), so a dot directory is not entered either;
  \<^item> the pattern \<^verbatim>\<open>*.jpg\<close> becomes the regular expression
    \<^verbatim>\<open>/^(?!\.)(?=.)[^\/]*?\.jpg$/i\<close>, whose \<^verbatim>\<open>(?=.)\<close> refuses a name that starts with a
    line terminator (line feed, carriage return, U+2028, U+2029 in UTF-8);
  \<^item> a match is any entry whose name fits, whatever its kind (the option \<^verbatim>\<open>nodir\<close>
    is not set);
  \<^item> a directory that glob lists and whose listing throws makes the whole call fail
    with that error (the option \<^verbatim>\<open>strict\<close> is on unless it is set to false); a
    path that is not a directory has no entries and raises nothing;
  \<^item> below \<^verbatim>\<open>**\<close>, a symbolic link to a directory is listed, but nothing under its
    entries is visited;
  \<^item> the comparison ignores case, and every match is made absolute against the working
    directory, so the call fails when \<^verbatim>\<open>process.cwd()\<close> throws.
  The order in which glob reports its matches is not modelled: the matches are given in
  listing order, and the error is the first one in listing order.
\<close>

definition hidden :: "string \<Rightarrow> bool" where
  "hidden name = (case name of [] \<Rightarrow> False | c # cs \<Rightarrow> c = CHR ''.'')"

definition ends_with :: "string \<Rightarrow> string \<Rightarrow> bool" where
  "ends_with s e = (length e \<le> length s \<and> drop (length s - length e) s = e)"

definition line_terminator_first :: "string \<Rightarrow> bool" where
  "line_terminator_first name =
     (take 1 name = [CHR 0x0A] \<or> take 1 name = [CHR 0x0D]
      \<or> take 3 name = [CHR 0xE2, CHR 0x80, CHR 0xA8] \<or> take 3 name = [CHR 0xE2, CHR 0x80, CHR 0xA9])"

definition star_match :: "string \<Rightarrow> string \<Rightarrow> bool" where
  "star_match ext name =
     (name \<noteq> [] \<and> \<not> hidden name \<and> \<not> line_terminator_first name
      \<and> ends_with (toLowerCase name) (toLowerCase ext))"

text \<open>The entries glob sees at a path, or the error that stops it.\<close>

fun glob_readdir :: "node \<Rightarrow> error + (string \<times> node) list" where
  "glob_readdir (Dir entries) = Inr entries"
| "glob_readdir (DirNoList msg) = Inl (Error msg)"
| "glob_readdir (Symlink target) = glob_readdir target"
| "glob_readdir File = Inr []"
| "glob_readdir Other = Inr []"

text \<open>The matches directly inside a linked directory: one level, no descent.\<close>

definition glob_shallow :: "string \<Rightarrow> path \<Rightarrow> node \<Rightarrow> error + path list" where
  "glob_shallow ext d target =
     (case glob_readdir target of
        Inl e \<Rightarrow> Inl e
      | Inr entries \<Rightarrow>
          Inr (map (\<lambda>(name, n). path_join d name)
                 (filter (\<lambda>(name, n). \<not> hidden name \<and> star_match ext name) entries)))"

text \<open>
  \<open>glob_entries\<close> goes through the entries of one directory; each entry comes with the
  result of the walk below it, which is used unless the entry is a symbolic link.
\<close>

fun glob_entries :: "string \<Rightarrow> path \<Rightarrow> (string \<times> node \<times> (error + path list)) list \<Rightarrow> error + path list" where
  "glob_entries ext d [] = Inr []"
| "glob_entries ext d ((name, n, below) # rest) =
     (if hidden name then glob_entries ext d rest
      else
        (case (case n of Symlink target \<Rightarrow> glob_shallow ext (path_join d name) target | _ \<Rightarrow> below) of
           Inl e \<Rightarrow> Inl e
         | Inr found \<Rightarrow>
            (case glob_entries ext d rest of
               Inl e \<Rightarrow> Inl e
             | Inr others \<Rightarrow>
                 Inr ((if star_match ext name then [path_join d name] else []) @ found @ others))))"

fun glob_walk :: "string \<Rightarrow> path \<Rightarrow> node \<Rightarrow> error + path list" where
  "glob_walk ext d (Dir entries) =
     glob_entries ext d (map (\<lambda>(name, n). (name, n, glob_walk ext (path_join d name) n)) entries)"
| "glob_walk ext d (DirNoList msg) = Inl (Error msg)"
| "glob_walk ext d (Symlink target) = glob_walk ext d target"
| "glob_walk ext d File = Inr []"
| "glob_walk ext d Other = Inr []"

definition absolute :: "path \<Rightarrow> path \<Rightarrow> path" where
  "absolute cwd p = (if cwd = ''/'' then ''/'' @ p else cwd @ ''/'' @ p)"

definition globPromise :: "env \<Rightarrow> node \<Rightarrow> string \<Rightarrow> error + path list" where
  "globPromise env tree ext =
     (case process_cwd env of
        Inl e \<Rightarrow> Inl e
      | Inr cwd \<Rightarrow>
          (case glob_walk ext ''.'' tree of
             Inl e \<Rightarrow> Inl e
           | Inr matches \<Rightarrow> Inr (map (absolute cwd) matches)))"

text \<open>The loop over the patterns; the pattern \<^verbatim>\<open>**/*.jpg\<close> is given by its extension.\<close>

fun glob_patterns :: "env \<Rightarrow> node \<Rightarrow> string list \<Rightarrow> path list \<Rightarrow> error + path list" where
  "glob_patterns env tree [] imageFiles = Inr imageFiles"
| "glob_patterns env tree (pattern # patterns) imageFiles =
     (case globPromise env tree pattern of
        Inl e \<Rightarrow> Inl e
      | Inr files \<Rightarrow> glob_patterns env tree patterns (imageFiles @ files))"

section \<open>The orchestrators\<close>

text \<open>
  \<^verbatim>\<open>Math.round(completed / len * 100)\<close> is computed in IEEE doubles: the quotient is
  rounded to a double, the product with 100 is rounded again, and \<^verbatim>\<open>Math.round\<close>
  takes the nearest integer, a tie going up. A positive double is written \<open>m / 2 ^ k\<close>
  with 53 significant bits; \<open>to_double a b\<close> is the double nearest to \<open>a / b\<close>, a tie
  going to the even \<open>m\<close>. The model is meant for \<open>0 < completed \<le> len\<close>, which is what
  the loops pass.
\<close>

definition precision :: nat where
  "precision = 2 ^ 52"

function binade :: "nat \<Rightarrow> nat \<Rightarrow> nat \<Rightarrow> nat" where
  "binade a b k = (if a = 0 \<or> b * precision \<le> a * 2 ^ k then k else binade a b (Suc k))"
  by pat_completeness auto
termination
proof (relation "measure (\<lambda>(a, b, k). b * precision - a * 2 ^ k)")
  show "wf (measure (\<lambda>(a, b, k). b * precision - a * 2 ^ k))"
    by simp
next
  fix a b k :: nat
  assume "\<not> (a = 0 \<or> b * precision \<le> a * 2 ^ k)"
  then have "0 < a * 2 ^ k" and "a * 2 ^ k < b * precision"
    by simp_all
  then have "b * precision - 2 * (a * 2 ^ k) < b * precision - a * 2 ^ k"
    by arith
  then show "((a, b, Suc k), (a, b, k)) \<in> measure (\<lambda>(a, b, k). b * precision - a * 2 ^ k)"
    by (simp add: mult.left_commute)
qed

declare binade.simps [simp del]

definition nearest_even :: "nat \<Rightarrow> nat \<Rightarrow> nat" where
  "nearest_even a b =
     (let q = a div b; r = a mod b
      in if 2 * r < b then q else if b < 2 * r then q + 1 else if even q then q else q + 1)"

definition to_double :: "nat \<Rightarrow> nat \<Rightarrow> nat \<times> nat" where
  "to_double a b = (let k = binade a b 0 in (nearest_even (a * 2 ^ k) b, k))"

definition percent :: "nat \<Rightarrow> nat \<Rightarrow> nat" where
  "percent completed len =
     (case to_double completed len of (m1, k1) \<Rightarrow>
        (case to_double (m1 * 100) (2 ^ k1) of (m2, k2) \<Rightarrow>
           (2 * m2 + 2 ^ k2) div 2 ^ (k2 + 1)))"

text \<open>
  How an asynchronous function ends: its promise resolves, it rejects with an error, or
  the function has called \<^verbatim>\<open>process.exit\<close>.
\<close>

datatype outcome = Resolved | Rejected error | Exited nat

subsection \<open>\<^verbatim>\<open>src/optimize-images.js\<close>: one loop\<close>

fun process_each :: "env \<Rightarrow> nat \<Rightarrow> path list \<Rightarrow> nat \<Rightarrow> store \<Rightarrow> store \<times> event list" where
  "process_each env len [] completed fs = (fs, [])"
| "process_each env len (imagePath # rest) completed fs =
     (case processImage env imagePath fs of (fs1, out1) \<Rightarrow>
        (case process_each env len rest (completed + 1) fs1 of (fs2, out2) \<Rightarrow>
           (fs2, out1 @ [Log (Progress (completed + 1) len (percent (completed + 1) len))] @ out2)))"

definition findAndProcessImages_v1 :: "env \<Rightarrow> node \<Rightarrow> store \<Rightarrow> outcome \<times> store \<times> event list" where
  "findAndProcessImages_v1 env tree fs =
     (case glob_patterns env tree IMAGE_EXTENSIONS [] of
        Inl e \<Rightarrow> (Resolved, fs, [Log (ErrorFinding (message e))])
      | Inr imageFiles \<Rightarrow>
          (case process_each env (length imageFiles) imageFiles 0 fs of (fs', out) \<Rightarrow>
             (Resolved, fs', [Log (Found (length imageFiles))] @ out @ [Log AllProcessed])))"

subsection \<open>\<^verbatim>\<open>src/unnamed/part_000\<close>: batches of 10\<close>

text \<open>
  The \<^verbatim>\<open>try\<close> around each \<^verbatim>\<open>processImage\<close> call of the batch loop has no statement
  that throws in its body (\<^verbatim>\<open>processImage\<close> catches its own errors), so its
  \<^verbatim>\<open>catch\<close> has no branch here. The estimate is printed when
  \<^verbatim>\<open>msRemaining > 0\<close>, that is when time has passed and files remain.
\<close>

definition batchSize :: nat where
  "batchSize = 10"

definition slice :: "'a list \<Rightarrow> nat \<Rightarrow> nat \<Rightarrow> 'a list" where
  "slice xs a b = drop a (take b xs)"

fun process_batch :: "env \<Rightarrow> nat \<Rightarrow> path list \<Rightarrow> nat \<Rightarrow> store \<Rightarrow> nat \<times> store \<times> event list" where
  "process_batch env len [] completed fs = (completed, fs, [])"
| "process_batch env len (imagePath # rest) completed fs =
     (case processImage env imagePath fs of (fs1, out1) \<Rightarrow>
        (let completed1 = completed + 1;
             percentComplete = percent completed1 len;
             remainingImages = len - completed1;
             estimate =
               (if completed1 > 10 \<and> percentComplete > 0 \<and> elapsed_ms env completed1 * remainingImages > 0
                then [Log EstimatedCompletion] else [])
         in case process_batch env len rest completed1 fs1 of (completed2, fs2, out2) \<Rightarrow>
              (completed2, fs2,
               out1 @ [Log (ProgressElapsed completed1 len percentComplete)] @ estimate @ out2)))"

function process_batches :: "env \<Rightarrow> path list \<Rightarrow> nat \<Rightarrow> nat \<Rightarrow> store \<Rightarrow> store \<times> event list" where
  "process_batches env imageFiles i completed fs =
     (if i < length imageFiles then
        (let batch = slice imageFiles i (i + batchSize);
             header = Log (BatchHeader (i div batchSize + 1) ((length imageFiles + batchSize - 1) div batchSize));
             r = process_batch env (length imageFiles) batch completed fs;
             r' = process_batches env imageFiles (i + batchSize) (fst r) (fst (snd r))
         in (fst r', [header] @ snd (snd r) @ snd r'))
      else (fs, []))"
  by pat_completeness auto
termination
  by (relation "measure (\<lambda>(env, imageFiles, i, completed, fs). length imageFiles - i)")
     (auto simp: batchSize_def)

declare process_batches.simps [simp del]

definition findAndProcessImages_v2 :: "env \<Rightarrow> node \<Rightarrow> store \<Rightarrow> outcome \<times> store \<times> event list" where
  "findAndProcessImages_v2 env tree fs =
     (case process_cwd env of
        Inl e \<Rightarrow> (Exited 1, fs, [Log Starting, Log StartTime, Log (ErrorFinding (message e))])
      | Inr cwd \<Rightarrow>
          (case getAllFilesIterative tree of (imageFiles, listing) \<Rightarrow>
             (case process_batches env imageFiles 0 0 fs of (fs', out) \<Rightarrow>
                (Resolved, fs',
                 [Log Starting, Log StartTime, Log (CurrentDirectory cwd)] @ listing
                 @ [Log (Found (length imageFiles))] @ out
                 @ [Log AllProcessed, Log TotalTime, Log Started, Log Finished]))))"

subsection \<open>The last statement of both scripts\<close>

text \<open>
  \<^verbatim>\<open>findAndProcessImages().catch(error => { ...; process.exit(1) })\<close>. The exit code is
  0 when the promise resolves and nothing called \<^verbatim>\<open>process.exit\<close>.
\<close>

definition main :: "outcome \<times> store \<times> event list \<Rightarrow> nat \<times> store \<times> event list" where
  "main r =
     (case r of
        (Resolved, fs, out) \<Rightarrow> (0, fs, out)
      | (Rejected e, fs, out) \<Rightarrow> (1, fs, out @ [Log (AnErrorOccurred (message e))])
      | (Exited code, fs, out) \<Rightarrow> (code, fs, out))"

definition main_v1 :: "env \<Rightarrow> node \<Rightarrow> store \<Rightarrow> nat \<times> store \<times> event list" where
  "main_v1 env tree fs = main (findAndProcessImages_v1 env tree fs)"

definition main_v2 :: "env \<Rightarrow> node \<Rightarrow> store \<Rightarrow> nat \<times> store \<times> event list" where
  "main_v2 env tree fs = main (findAndProcessImages_v2 env tree fs)"

section \<open>Vocabulary of the statements\<close>

text \<open>
  The events that come from \<^verbatim>\<open>processImage\<close> (every call, and the log lines it
  prints), as opposed to the progress lines of the orchestrators.
\<close>

fun per_file_line :: "line \<Rightarrow> bool" where
  "per_file_line (Processing p) = True"
| "per_file_line (WidthOk w) = True"
| "per_file_line (Resizing w) = True"
| "per_file_line (Optimized a b) = True"
| "per_file_line KeepOriginal = True"
| "per_file_line (Completed p) = True"
| "per_file_line (ErrorProcessing p m) = True"
| "per_file_line l = False"

fun per_file :: "event \<Rightarrow> bool" where
  "per_file (Call c) = True"
| "per_file (Log l) = per_file_line l"

fun progress_line :: "event \<Rightarrow> bool" where
  "progress_line (Log (BatchHeader a b)) = True"
| "progress_line (Log (Progress a b c)) = True"
| "progress_line (Log (ProgressElapsed a b c)) = True"
| "progress_line (Log EstimatedCompletion) = True"
| "progress_line ev = False"

fun failure_line :: "event \<Rightarrow> bool" where
  "failure_line (Log (ErrorProcessing p m)) = True"
| "failure_line ev = False"

text \<open>The plain loop: \<^verbatim>\<open>processImage\<close> on each path in turn, and nothing else.\<close>

fun each_in_turn :: "env \<Rightarrow> path list \<Rightarrow> store \<Rightarrow> store \<times> event list" where
  "each_in_turn env [] fs = (fs, [])"
| "each_in_turn env (p # ps) fs =
     (case processImage env p fs of (fs1, out1) \<Rightarrow>
        (case each_in_turn env ps fs1 of (fs2, out2) \<Rightarrow> (fs2, out1 @ out2)))"

text \<open>The error that the body of \<^verbatim>\<open>processImage\<close> throws on a path in a store, if any.\<close>

definition raises :: "env \<Rightarrow> store \<Rightarrow> path \<Rightarrow> error option" where
  "raises env fs p = (case fst (processImage_try env p fs) of Inl e \<Rightarrow> Some e | Inr u \<Rightarrow> None)"

text \<open>
  What discovery is expected to find, by recursion on the tree: the image files of every
  directory that is reached through directories that can be listed, and one failure line
  for every directory reached whose listing throws.
\<close>

fun listable_images :: "path \<Rightarrow> node \<Rightarrow> path list" where
  "listable_images d (Dir entries) =
     concat (map (\<lambda>(name, n).
        if isDirectory n then listable_images (path_join d name) n
        else if isFile n \<and> toLowerCase (extname name) \<in> set IMAGE_EXTENSIONS then [path_join d name]
        else []) entries)"
| "listable_images d (Symlink target) = listable_images d target"
| "listable_images d n = []"

fun listing_failures :: "path \<Rightarrow> node \<Rightarrow> event list" where
  "listing_failures d (Dir entries) =
     concat (map (\<lambda>(name, n).
        if isDirectory n then listing_failures (path_join d name) n else []) entries)"
| "listing_failures d (Symlink target) = listing_failures d target"
| "listing_failures d n =
     (case readdirSync n of
        Inl e \<Rightarrow> [Log (ErrorReadingDirectory d (message e))]
      | Inr entries \<Rightarrow> [])"

text \<open>
  A tree on which the two discovery strategies can be compared: every directory can be
  listed, no entry is a symbolic link to a directory, every name is a proper entry name
  (not empty, no slash) that starts neither with a dot nor with a line terminator, and
  every entry with an image name is a regular file.
\<close>

fun plain_tree :: "node \<Rightarrow> bool" where
  "plain_tree (Dir entries) =
     list_all (\<lambda>(name, n).
        name \<noteq> [] \<and> CHR ''/'' \<notin> set name \<and> \<not> hidden name \<and> \<not> line_terminator_first name
        \<and> (toLowerCase (extname name) \<in> set IMAGE_EXTENSIONS \<longrightarrow> isFile n)
        \<and> plain_tree n) entries"
| "plain_tree (DirNoList msg) = False"
| "plain_tree (Symlink target) = False"
| "plain_tree File = True"
| "plain_tree Other = True"

text \<open>The matches of one pattern on a tree where no listing fails and no link is met.\<close>

fun glob_plain :: "string \<Rightarrow> path \<Rightarrow> node \<Rightarrow> path list" where
  "glob_plain ext d (Dir entries) =
     concat (map (\<lambda>(name, n).
        if hidden name then []
        else (if star_match ext name then [path_join d name] else [])
             @ glob_plain ext (path_join d name) n) entries)"
| "glob_plain ext d n = []"

text \<open>
  A file that a run leaves alone: it is at most \<open>MAX_WIDTH\<close> wide and its recompression,
  when the script asks for one and gets it, is not strictly smaller than the file.
\<close>

definition already_optimized :: "env \<Rightarrow> store \<Rightarrow> path \<Rightarrow> bool" where
  "already_optimized env fs p =
     (case fs p of
        None \<Rightarrow> False
      | Some b \<Rightarrow>
         (case probe_width env b of
            Inl e \<Rightarrow> False
          | Inr w \<Rightarrow>
             w \<le> MAX_WIDTH
             \<and> (case pipe_plugins env (select_plugins (toLowerCase (extname p))) b of
                  Inl e \<Rightarrow> True
                | Inr opt \<Rightarrow> \<not> length opt < length b)))"

section \<open>Sample inputs\<close>

text \<open>
  A toy codec family for concrete runs: the first byte of a file is its width in
  hundreds of pixels, resizing caps that byte, and every plugin drops the second byte of
  its input while it has one.
\<close>

definition toy_env :: env where
  "toy_env = \<lparr>
     probe_width = (\<lambda>b. case b of [] \<Rightarrow> Inl (Error ''Input buffer is empty'') | w # rest \<Rightarrow> Inr (100 * unat w)),
     resize_to = (\<lambda>width b. case b of
                     [] \<Rightarrow> Inl (Error ''Input buffer is empty'', None)
                   | w # rest \<Rightarrow> Inr (of_nat (min (unat w) (width div 100)) # rest)),
     run_plugin = (\<lambda>pl b. case b of w # x # rest \<Rightarrow> Inr (w # rest) | _ \<Rightarrow> Inr b),
     process_cwd = Inr ''/srv/uploads'',
     elapsed_ms = (\<lambda>n. 1000 * n) \<rparr>"

definition failing_resize_env :: env where
  "failing_resize_env = toy_env \<lparr> resize_to := (\<lambda>width b. Inl (Error ''write failed'', Some [0])) \<rparr>"

definition toy_store :: store where
  "toy_store = [''photo.jpg'' \<mapsto> [40, 1, 2, 3], ''icon.png'' \<mapsto> [1, 7], ''anim.webp'' \<mapsto> [3, 8, 9],
                ''notes.txt'' \<mapsto> [5, 5], ''broken.jpg'' \<mapsto> []]"

definition toy_tree :: node where
  "toy_tree = Dir [(''private'', DirNoList ''EACCES: permission denied, scandir''),
                   (''photo.jpg'', File), (''2024'', Dir [(''icon.png'', File), (''notes.txt'', File)]),
                   (''Logo.SVG'', File), (''link.gif'', Other)]"

definition plain_sample_tree :: node where
  "plain_sample_tree = Dir [(''photo.jpg'', File), (''2024'', Dir [(''icon.png'', File), (''notes.txt'', File)]),
                   (''socket'', Other), (''Logo.SVG'', File)]"

definition hidden_tree :: node where
  "hidden_tree = Dir [(''.thumb.png'', File), (''a.jpg'', File)]"

definition locked_tree :: node where
  "locked_tree = Dir [(''a.jpg'', File), (''private'', DirNoList ''EACCES: permission denied, scandir'')]"

definition linked_tree :: node where
  "linked_tree = Dir [(''a.jpg'', File), (''album'', Symlink (Dir [(''c.jpeg'', File), (''deep'', Dir [(''d.png'', File)])]))]"

definition named_dir_tree :: node where
  "named_dir_tree = Dir [(''a.jpg'', File), (''shots.png'', Dir [])]"

definition gone_cwd_env :: env where
  "gone_cwd_env = toy_env \<lparr> process_cwd := Inl (Error ''ENOENT: no such file or directory, uv_cwd'') \<rparr>"

definition single_tree :: node where
  "single_tree = Dir [(''a.jpg'', File)]"

definition single_store :: store where
  "single_store = [''a.jpg'' \<mapsto> [10, 1, 2, 3]]"

definition unreadable_root :: node where
  "unreadable_root = DirNoList ''EACCES: permission denied, scandir''"

section \<open>Properties of the transformer\<close>

subsection \<open>What each step does\<close>

lemmas io_defs = bind_def return_def console_log_def sharp_metadata_def sharp_resize_toFile_def
  unlinkSync_def renameSync_def statSync_size_def readFileSync_def writeFileSync_def imagemin_buffer_def

lemmas run_defs = processImage_def processImage_try_def resize_step_def optimize_step_def
  commit_step_def select_plugins_def io_defs MAX_WIDTH_def IMAGE_EXTENSIONS_def
  extname_def last_segment_def toLowerCase_def toLowerCase_char_def Let_def

lemma select_plugins_nonempty:
  "ext \<in> set [''.jpg'', ''.jpeg'', ''.png'', ''.gif'', ''.svg''] \<Longrightarrow> select_plugins ext \<noteq> []"
  by (auto simp: select_plugins_def)

lemma optimize_step_skip:
  "ext \<notin> set [''.jpg'', ''.jpeg'', ''.png'', ''.gif'', ''.svg''] \<Longrightarrow> optimize_step env p ext fs = (Inr (), fs, [])"
  by (simp add: optimize_step_def return_def)

lemma optimize_step_missing:
  "ext \<in> set [''.jpg'', ''.jpeg'', ''.png'', ''.gif'', ''.svg''] \<Longrightarrow> fs p = None \<Longrightarrow>
   optimize_step env p ext fs = (Inl (ENOENT p), fs, [Call (Stat p)])"
  by (simp add: optimize_step_def io_defs)

lemma optimize_step_run:
  assumes "ext \<in> set [''.jpg'', ''.jpeg'', ''.png'', ''.gif'', ''.svg'']" and "fs p = Some cur"
  shows "optimize_step env p ext fs =
     (case pipe_plugins env (select_plugins ext) cur of
        Inl e \<Rightarrow> (Inl e, fs, [Call (Stat p), Call (ReadFile p), Call (ImageminBuffer (select_plugins ext))])
      | Inr opt \<Rightarrow>
          if length opt < length cur then
            (Inr (), fs(p \<mapsto> opt),
             [Call (Stat p), Call (ReadFile p), Call (ImageminBuffer (select_plugins ext)),
              Call (WriteFile p opt), Call (Stat p), Log (Optimized (length cur) (length opt))])
          else (Inr (), fs,
             [Call (Stat p), Call (ReadFile p), Call (ImageminBuffer (select_plugins ext)), Log KeepOriginal]))"
    (is "_ = ?rhs")
proof -
  have ne: "0 < length (select_plugins ext)"
    using select_plugins_nonempty [OF assms(1)] by simp
  have "optimize_step env p ext fs =
      bind (statSync_size p) (\<lambda>originalSize.
      bind (readFileSync p) (\<lambda>buf.
      bind (imagemin_buffer env buf (select_plugins ext)) (\<lambda>optimizedBuffer.
      commit_step p originalSize optimizedBuffer))) fs"
    unfolding optimize_step_def Let_def
    by (simp only: if_P [OF assms(1)] if_P [OF ne])
  also have "\<dots> = ?rhs"
    using assms(2) by (simp add: commit_step_def io_defs split: sum.splits)
  finally show ?thesis .
qed


lemma resize_step_noop: "w \<le> MAX_WIDTH \<Longrightarrow> resize_step env p w fs = (Inr (), fs, [])"
  by (simp add: resize_step_def return_def)

lemma resize_step_run:
  assumes "MAX_WIDTH < w" and "fs p = Some b"
  shows "resize_step env p w fs =
     (case resize_to env MAX_WIDTH b of
        Inl (e, leftover) \<Rightarrow>
          (Inl e, (case leftover of None \<Rightarrow> fs | Some part \<Rightarrow> fs(p @ ''.temp'' \<mapsto> part)),
           [Call (ToFile p (p @ ''.temp''))])
      | Inr resized \<Rightarrow>
          (Inr (), (fs(p \<mapsto> resized))(p @ ''.temp'' := None),
           [Call (ToFile p (p @ ''.temp'')), Call (Unlink p), Call (Rename (p @ ''.temp'') p)]))"
  using assms
  by (auto simp: resize_step_def Let_def io_defs fun_eq_iff split: sum.splits option.splits prod.splits)

lemma processImage_image:
  assumes "toLowerCase (extname p) \<in> set IMAGE_EXTENSIONS"
  shows "processImage env p fs =
     (case fs p of
        None \<Rightarrow> (fs, [Log (Processing p), Call (Metadata p),
                       Log (ErrorProcessing p ''Input file is missing'')])
      | Some b \<Rightarrow>
         (case probe_width env b of
            Inl e \<Rightarrow> (fs, [Log (Processing p), Call (Metadata p), Log (ErrorProcessing p (message e))])
          | Inr w \<Rightarrow>
             (case resize_step env p w fs of
                (Inl e, fs1, out1) \<Rightarrow>
                  (fs1, [Log (Processing p), Call (Metadata p),
                         Log (if w \<le> MAX_WIDTH then WidthOk w else Resizing w)] @ out1
                        @ [Log (ErrorProcessing p (message e))])
              | (Inr u, fs1, out1) \<Rightarrow>
                 (case optimize_step env p (toLowerCase (extname p)) fs1 of (r, fs2, out2) \<Rightarrow>
                    (fs2, [Log (Processing p), Call (Metadata p),
                           Log (if w \<le> MAX_WIDTH then WidthOk w else Resizing w)] @ out1 @ out2
                          @ [Log (case r of Inl e \<Rightarrow> ErrorProcessing p (message e)
                                          | Inr u \<Rightarrow> Completed p)])))))"
proof -
  have "processImage_try env p fs =
      bind (console_log (Processing p)) (\<lambda>_.
      bind (sharp_metadata env p) (\<lambda>width.
      bind (console_log (if width \<le> MAX_WIDTH then WidthOk width else Resizing width)) (\<lambda>_.
      bind (resize_step env p width) (\<lambda>_.
      bind (optimize_step env p (toLowerCase (extname p))) (\<lambda>_.
      console_log (Completed p)))))) fs"
    unfolding processImage_try_def Let_def using assms by (simp only: not_not not_True_eq_False if_False simp_thms)
  then show ?thesis
    by (simp add: processImage_def bind_def console_log_def sharp_metadata_def
        split: option.splits sum.splits prod.splits)
qed


lemma optimize_step_effect:
  assumes "optimize_step env p ext fs = (r, fs', out)"
  shows "(\<forall>q. q \<noteq> p \<longrightarrow> fs' q = fs q)
       \<and> (\<forall>a c. Call (ToFile a c) \<notin> set out \<and> Call (Unlink a) \<notin> set out \<and> Call (Rename a c) \<notin> set out)
       \<and> (\<forall>cur. fs p = Some cur \<longrightarrow> fs' p = Some cur \<or> (\<exists>opt. fs' p = Some opt \<and> length opt < length cur))
       \<and> (fs p = None \<longrightarrow> fs' p = None)"
proof (cases "ext \<in> set [''.jpg'', ''.jpeg'', ''.png'', ''.gif'', ''.svg'']")
  case False
  with assms show ?thesis
    by (auto simp: optimize_step_skip)
next
  case five: True
  show ?thesis
  proof (cases "fs p")
    case None
    with assms five show ?thesis
      by (auto simp: optimize_step_missing)
  next
    case (Some cur)
    from assms Some show ?thesis
      unfolding optimize_step_run [where fs = fs and p = p, OF five Some]
      by (auto split: sum.splits if_splits)
  qed
qed

lemma resize_step_missing:
  "MAX_WIDTH < w \<Longrightarrow> fs p = None \<Longrightarrow>
   resize_step env p w fs = (Inl (Error ''Input file is missing''), fs, [Call (ToFile p (p @ ''.temp''))])"
  by (simp add: resize_step_def Let_def io_defs)

lemma processImage_try_image:
  assumes "toLowerCase (extname p) \<in> set IMAGE_EXTENSIONS"
  shows "processImage_try env p fs =
     (case fs p of
        None \<Rightarrow> (Inl (Error ''Input file is missing''), fs, [Log (Processing p), Call (Metadata p)])
      | Some b \<Rightarrow>
         (case probe_width env b of
            Inl e \<Rightarrow> (Inl e, fs, [Log (Processing p), Call (Metadata p)])
          | Inr w \<Rightarrow>
             (case resize_step env p w fs of
                (Inl e, fs1, out1) \<Rightarrow>
                  (Inl e, fs1, [Log (Processing p), Call (Metadata p),
                         Log (if w \<le> MAX_WIDTH then WidthOk w else Resizing w)] @ out1)
              | (Inr u, fs1, out1) \<Rightarrow>
                 (case optimize_step env p (toLowerCase (extname p)) fs1 of
                    (Inl e, fs2, out2) \<Rightarrow>
                      (Inl e, fs2, [Log (Processing p), Call (Metadata p),
                           Log (if w \<le> MAX_WIDTH then WidthOk w else Resizing w)] @ out1 @ out2)
                  | (Inr u, fs2, out2) \<Rightarrow>
                      (Inr (), fs2, [Log (Processing p), Call (Metadata p),
                           Log (if w \<le> MAX_WIDTH then WidthOk w else Resizing w)] @ out1 @ out2
                          @ [Log (Completed p)])))))"
proof -
  have "processImage_try env p fs =
      bind (console_log (Processing p)) (\<lambda>_.
      bind (sharp_metadata env p) (\<lambda>width.
      bind (console_log (if width \<le> MAX_WIDTH then WidthOk width else Resizing width)) (\<lambda>_.
      bind (resize_step env p width) (\<lambda>_.
      bind (optimize_step env p (toLowerCase (extname p))) (\<lambda>_.
      console_log (Completed p)))))) fs"
    unfolding processImage_try_def Let_def using assms by (simp only: simp_thms if_False)
  then show ?thesis
    by (simp add: bind_def console_log_def sharp_metadata_def
        split: option.splits sum.splits prod.splits)
qed

text \<open>Locality: what a step does at a path depends on the store at that path only.\<close>

lemma resize_step_local:
  assumes "t p = s p"
  shows "fst (resize_step env p w t) = fst (resize_step env p w s)
       \<and> snd (snd (resize_step env p w t)) = snd (snd (resize_step env p w s))
       \<and> fst (snd (resize_step env p w t)) p = fst (snd (resize_step env p w s)) p"
proof (cases "MAX_WIDTH < w")
  case False
  then show ?thesis
    using assms by (simp add: resize_step_noop)
next
  case wide: True
  show ?thesis
  proof (cases "s p")
    case None
    then show ?thesis
      using assms wide by (simp add: resize_step_missing)
  next
    case (Some b)
    then have "t p = Some b"
      using assms by simp
    then show ?thesis
      using Some
      by (simp add: resize_step_run [where fs = s and p = p, OF wide Some]
          resize_step_run [where fs = t and p = p, OF wide \<open>t p = Some b\<close>]
          split: sum.splits option.splits prod.splits)
  qed
qed

lemma optimize_step_local:
  assumes "t p = s p"
  shows "fst (optimize_step env p ext t) = fst (optimize_step env p ext s)
       \<and> snd (snd (optimize_step env p ext t)) = snd (snd (optimize_step env p ext s))
       \<and> fst (snd (optimize_step env p ext t)) p = fst (snd (optimize_step env p ext s)) p"
proof (cases "ext \<in> set [''.jpg'', ''.jpeg'', ''.png'', ''.gif'', ''.svg'']")
  case False
  then show ?thesis
    using assms by (simp add: optimize_step_skip)
next
  case five: True
  show ?thesis
  proof (cases "s p")
    case None
    then show ?thesis
      using assms five by (simp add: optimize_step_missing)
  next
    case (Some cur)
    then have "t p = Some cur"
      using assms by simp
    then show ?thesis
      using Some
      by (simp add: optimize_step_run [where fs = s and p = p, OF five Some]
          optimize_step_run [where fs = t and p = p, OF five \<open>t p = Some cur\<close>]
          split: sum.splits)
  qed
qed

lemma processImage_try_local:
  assumes same: "t p = s p"
  shows "fst (processImage_try env p t) = fst (processImage_try env p s)
       \<and> snd (snd (processImage_try env p t)) = snd (snd (processImage_try env p s))
       \<and> fst (snd (processImage_try env p t)) p = fst (snd (processImage_try env p s)) p"
proof (cases "toLowerCase (extname p) \<in> set IMAGE_EXTENSIONS")
  case False
  then show ?thesis
    using same by (simp add: processImage_try_def return_def)
next
  case img: True
  show ?thesis
  proof (cases "s p")
    case None
    then show ?thesis
      using same by (simp add: processImage_try_image [OF img])
  next
    case (Some b)
    show ?thesis
    proof (cases "probe_width env b")
      case (Inl e)
      then show ?thesis
        using same Some by (simp add: processImage_try_image [OF img])
    next
      case (Inr w)
      obtain r1 g1 o1 where s1: "resize_step env p w s = (r1, g1, o1)"
        by (cases "resize_step env p w s")
      obtain r2 g2 o2 where s2: "resize_step env p w t = (r2, g2, o2)"
        by (cases "resize_step env p w t")
      from resize_step_local [where s = s and t = t and p = p, OF same, of env w] s1 s2
      have rs: "r2 = r1" "o2 = o1" "g2 p = g1 p"
        by simp_all
      obtain r1' g1' o1' where t1: "optimize_step env p (toLowerCase (extname p)) g1 = (r1', g1', o1')"
        by (cases "optimize_step env p (toLowerCase (extname p)) g1")
      obtain r2' g2' o2' where t2: "optimize_step env p (toLowerCase (extname p)) g2 = (r2', g2', o2')"
        by (cases "optimize_step env p (toLowerCase (extname p)) g2")
      from optimize_step_local [where s = g1 and t = g2 and p = p, OF rs(3), of env "toLowerCase (extname p)"] t1 t2
      have os: "r2' = r1'" "o2' = o1'" "g2' p = g1' p"
        by simp_all
      show ?thesis
        using same Some Inr
        by (simp add: processImage_try_image [OF img] s1 s2 rs t1 t2 os split: sum.splits)
    qed
  qed
qed

lemma processImage_try_skip:
  "toLowerCase (extname p) \<notin> set IMAGE_EXTENSIONS \<Longrightarrow> processImage_try env p fs = (Inr (), fs, [])"
  by (simp add: processImage_try_def return_def)

lemma processImage_via_try:
  "processImage env p fs =
     (fst (snd (processImage_try env p fs)),
      snd (snd (processImage_try env p fs))
      @ (case fst (processImage_try env p fs) of
           Inl e \<Rightarrow> [Log (ErrorProcessing p (message e))] | Inr u \<Rightarrow> []))"
  by (simp add: processImage_def split: prod.splits sum.splits)

lemma processImage_local:
  assumes "t p = s p"
  shows "snd (processImage env p t) = snd (processImage env p s)"
    and "fst (processImage env p t) p = fst (processImage env p s) p"
    and "raises env t p = raises env s p"
  using processImage_try_local [where s = s and t = t and p = p, OF assms, of env]
  by (simp_all add: processImage_via_try raises_def split: prod.splits sum.splits)

text \<open>Frame: only the path and its temp sibling can change.\<close>

lemma resize_step_frame:
  assumes "resize_step env p w fs = (r, fs', out)" and "q \<noteq> p" and "q \<noteq> p @ ''.temp''"
  shows "fs' q = fs q"
proof (cases "MAX_WIDTH < w")
  case False
  with assms show ?thesis
    by (auto simp: resize_step_noop)
next
  case wide: True
  show ?thesis
  proof (cases "fs p")
    case None
    with assms wide show ?thesis
      by (auto simp: resize_step_missing)
  next
    case (Some b)
    from assms show ?thesis
      unfolding resize_step_run [where fs = fs and p = p, OF wide Some]
      by (auto split: sum.splits option.splits prod.splits)
  qed
qed

lemma optimize_step_frame:
  "optimize_step env p ext fs = (r, fs', out) \<Longrightarrow> q \<noteq> p \<Longrightarrow> fs' q = fs q"
  using optimize_step_effect [of env p ext fs r fs' out] by simp

lemma processImage_try_frame:
  assumes "q \<noteq> p" and "q \<noteq> p @ ''.temp''"
  shows "fst (snd (processImage_try env p fs)) q = fs q"
proof (cases "toLowerCase (extname p) \<in> set IMAGE_EXTENSIONS")
  case False
  then show ?thesis
    by (simp add: processImage_try_skip)
next
  case img: True
  show ?thesis
  proof (cases "fs p")
    case None
    then show ?thesis
      by (simp add: processImage_try_image [OF img])
  next
    case (Some b)
    show ?thesis
    proof (cases "probe_width env b")
      case (Inl e)
      then show ?thesis
        using Some by (simp add: processImage_try_image [OF img])
    next
      case (Inr w)
      obtain r1 g1 o1 where s1: "resize_step env p w fs = (r1, g1, o1)"
        by (cases "resize_step env p w fs")
      obtain r2 g2 o2 where s2: "optimize_step env p (toLowerCase (extname p)) g1 = (r2, g2, o2)"
        by (cases "optimize_step env p (toLowerCase (extname p)) g1")
      have "g1 q = fs q"
        using resize_step_frame [OF s1 assms] .
      moreover have "g2 q = g1 q"
        using optimize_step_frame [OF s2 assms(1)] .
      ultimately show ?thesis
        using Some Inr
        by (simp add: processImage_try_image [OF img] s1 s2 split: sum.splits)
    qed
  qed
qed

lemma processImage_frame:
  "q \<noteq> p \<Longrightarrow> q \<noteq> p @ ''.temp'' \<Longrightarrow> fst (processImage env p fs) q = fs q"
  by (simp add: processImage_via_try processImage_try_frame)

text \<open>The temp sibling of a path is never an image name.\<close>

lemma last_segment_temp:
  "last_segment (p @ ''.temp'') = last_segment p @ ''.temp'' \<or> last_segment (p @ ''.temp'') = ''.temp''"
  by (cases "rev p") (auto simp: last_segment_def)

lemma extname_temp: "extname (p @ ''.temp'') = ''.temp'' \<or> extname (p @ ''.temp'') = []"
  using last_segment_temp [of p]
  by (auto simp: extname_def Let_def)

lemma temp_not_image: "toLowerCase (extname (p @ ''.temp'')) \<notin> set IMAGE_EXTENSIONS"
  using extname_temp [of p]
  by (auto simp: toLowerCase_def toLowerCase_char_def IMAGE_EXTENSIONS_def)

lemma resize_step_events:
  "list_all (\<lambda>ev. per_file ev \<and> \<not> failure_line ev) (snd (snd (resize_step env p w fs)))"
  by (simp add: resize_step_def Let_def io_defs split: option.splits sum.splits prod.splits)

lemma optimize_step_events:
  "list_all (\<lambda>ev. per_file ev \<and> \<not> failure_line ev) (snd (snd (optimize_step env p ext fs)))"
proof (cases "ext \<in> set [''.jpg'', ''.jpeg'', ''.png'', ''.gif'', ''.svg'']")
  case False
  then show ?thesis
    by (simp add: optimize_step_skip)
next
  case five: True
  show ?thesis
  proof (cases "fs p")
    case None
    with five show ?thesis
      by (simp add: optimize_step_missing)
  next
    case (Some cur)
    show ?thesis
      unfolding optimize_step_run [where fs = fs and p = p, OF five Some]
      by (simp split: sum.splits)
  qed
qed

lemma processImage_try_events:
  "list_all (\<lambda>ev. per_file ev \<and> \<not> failure_line ev) (snd (snd (processImage_try env p fs)))"
proof (cases "toLowerCase (extname p) \<in> set IMAGE_EXTENSIONS")
  case False
  then show ?thesis
    by (simp add: processImage_try_skip)
next
  case img: True
  show ?thesis
  proof (cases "fs p")
    case None
    then show ?thesis
      by (simp add: processImage_try_image [OF img])
  next
    case (Some b)
    show ?thesis
    proof (cases "probe_width env b")
      case (Inl e)
      then show ?thesis
        using Some by (simp add: processImage_try_image [OF img])
    next
      case (Inr w)
      obtain r1 g1 o1 where s1: "resize_step env p w fs = (r1, g1, o1)"
        by (cases "resize_step env p w fs")
      obtain r2 g2 o2 where s2: "optimize_step env p (toLowerCase (extname p)) g1 = (r2, g2, o2)"
        by (cases "optimize_step env p (toLowerCase (extname p)) g1")
      show ?thesis
        using Some Inr resize_step_events [of env p w fs]
          optimize_step_events [of env p "toLowerCase (extname p)" g1]
        by (simp add: processImage_try_image [OF img] s1 s2 split: sum.splits)
    qed
  qed
qed

lemma processImage_per_file: "filter per_file (snd (processImage env p fs)) = snd (processImage env p fs)"
  using processImage_try_events [of env p fs]
  by (auto simp: processImage_via_try list_all_iff filter_id_conv split: sum.splits)

lemma processImage_failures:
  "filter failure_line (snd (processImage env p fs)) =
     (case raises env fs p of None \<Rightarrow> [] | Some e \<Rightarrow> [Log (ErrorProcessing p (message e))])"
  using processImage_try_events [of env p fs]
  by (auto simp: processImage_via_try raises_def list_all_iff filter_empty_conv split: sum.splits)

lemma processImage_completed:
  assumes "toLowerCase (extname p) \<in> set IMAGE_EXTENSIONS" and "raises env fs p = None"
  shows "Log (Completed p) \<in> set (snd (processImage env p fs))"
  using assms(2)
  by (auto simp: processImage_via_try raises_def processImage_try_image [OF assms(1)]
      split: option.splits sum.splits prod.splits)

subsection \<open>Resize (C1)\<close>

text \<open>
  C1. For an image file whose probed width exceeds \<open>MAX_WIDTH\<close>, the first calls after the
  probe are, in this order, the write of the resized bytes to \<^verbatim>\<open><original>.temp\<close>, the
  delete of the original and the rename of the temp file onto it; afterwards the temp path
  is free and the original path holds the resized bytes or their smaller recompression.
  When the resize write fails, nothing is deleted or renamed, the original still holds the
  bytes it had, and the store differs from the initial one at the temp path at most. When
  the width is at most \<open>MAX_WIDTH\<close>, the temp path is untouched and no write-to-temp, delete
  or rename is issued.
\<close>

theorem processImage_resize_safe:
  assumes img: "toLowerCase (extname p) \<in> set IMAGE_EXTENSIONS"
    and content: "fs p = Some b"
    and probe: "probe_width env b = Inr w"
  shows "case processImage env p fs of (fs', out) \<Rightarrow>
     (if MAX_WIDTH < w then
        (case resize_to env MAX_WIDTH b of
           Inr resized \<Rightarrow>
             (\<exists>rest. out = [Log (Processing p), Call (Metadata p), Log (Resizing w),
                  Call (ToFile p (p @ ''.temp'')), Call (Unlink p), Call (Rename (p @ ''.temp'') p)] @ rest)
             \<and> fs' (p @ ''.temp'') = None
             \<and> (fs' p = Some resized \<or> (\<exists>opt. fs' p = Some opt \<and> length opt < length resized))
         | Inl (e, leftover) \<Rightarrow>
             fs' p = Some b
             \<and> (\<forall>q. q \<noteq> p @ ''.temp'' \<longrightarrow> fs' q = fs q)
             \<and> (\<forall>a c. Call (Unlink a) \<notin> set out \<and> Call (Rename a c) \<notin> set out)
             \<and> out = [Log (Processing p), Call (Metadata p), Log (Resizing w),
                  Call (ToFile p (p @ ''.temp'')), Log (ErrorProcessing p (message e))])
      else fs' (p @ ''.temp'') = fs (p @ ''.temp'')
           \<and> (\<forall>a c. Call (ToFile a c) \<notin> set out \<and> Call (Unlink a) \<notin> set out
                    \<and> Call (Rename a c) \<notin> set out))"
proof (cases "MAX_WIDTH < w")
  case False
  then have small: "w \<le> MAX_WIDTH" by simp
  obtain r fs2 out2 where opt: "optimize_step env p (toLowerCase (extname p)) fs = (r, fs2, out2)"
    by (cases "optimize_step env p (toLowerCase (extname p)) fs")
  from optimize_step_effect [OF opt] show ?thesis
    using False
    by (simp add: processImage_image [OF img] content probe resize_step_noop [OF small] opt small)
next
  case wide: True
  show ?thesis
  proof (cases "resize_to env MAX_WIDTH b")
    case (Inl failure)
    obtain e leftover where failure: "failure = (e, leftover)"
      by (cases failure)
    show ?thesis
      using wide
      by (simp add: processImage_image [OF img] content probe resize_step_run [where fs = fs and p = p, OF wide content] Inl
          failure split: option.splits)
  next
    case (Inr resized)
    let ?fs1 = "(fs(p \<mapsto> resized))(p @ ''.temp'' := None)"
    obtain r fs2 out2 where opt: "optimize_step env p (toLowerCase (extname p)) ?fs1 = (r, fs2, out2)"
      by (cases "optimize_step env p (toLowerCase (extname p)) ?fs1")
    from optimize_step_effect [OF opt] show ?thesis
      using wide
      by (simp add: processImage_image [OF img] content probe resize_step_run [where fs = fs and p = p, OF wide content] Inr opt)
  qed
qed


theorem processImage_resize_safe_witness:
  "(case processImage toy_env ''photo.jpg'' toy_store of (fs', out) \<Rightarrow>
      take 6 out = [Log (Processing ''photo.jpg''), Call (Metadata ''photo.jpg''), Log (Resizing 4000),
                    Call (ToFile ''photo.jpg'' ''photo.jpg.temp''), Call (Unlink ''photo.jpg''),
                    Call (Rename ''photo.jpg.temp'' ''photo.jpg'')]
      \<and> fs' ''photo.jpg.temp'' = None \<and> fs' ''photo.jpg'' = Some [25, 2, 3])
   \<and> (case processImage failing_resize_env ''photo.jpg'' toy_store of (fs', out) \<Rightarrow>
      fs' ''photo.jpg'' = Some [40, 1, 2, 3]
      \<and> (\<forall>q. q \<noteq> ''photo.jpg.temp'' \<longrightarrow> fs' q = toy_store q)
      \<and> out = [Log (Processing ''photo.jpg''), Call (Metadata ''photo.jpg''), Log (Resizing 4000),
                 Call (ToFile ''photo.jpg'' ''photo.jpg.temp''),
                 Log (ErrorProcessing ''photo.jpg'' ''write failed'')])
   \<and> (case processImage toy_env ''icon.png'' toy_store of (fs', out) \<Rightarrow>
      fs' ''icon.png.temp'' = None
      \<and> (\<forall>a c. Call (ToFile a c) \<notin> set out \<and> Call (Unlink a) \<notin> set out
               \<and> Call (Rename a c) \<notin> set out))"
proof -
  have img: "toLowerCase (extname ''photo.jpg'') \<in> set IMAGE_EXTENSIONS"
    "toLowerCase (extname ''icon.png'') \<in> set IMAGE_EXTENSIONS"
    by (simp_all add: extname_def last_segment_def toLowerCase_def toLowerCase_char_def
        IMAGE_EXTENSIONS_def)
  have photo: "toy_store ''photo.jpg'' = Some [40, 1, 2, 3]"
    and icon: "toy_store ''icon.png'' = Some [1, 7]"
    and temps: "toy_store ''photo.jpg.temp'' = None" "toy_store ''icon.png.temp'' = None"
    by (simp_all add: toy_store_def)
  have wide: "probe_width toy_env [40, 1, 2, 3] = Inr 4000"
    "probe_width failing_resize_env [40, 1, 2, 3] = Inr 4000"
    and narrow: "probe_width toy_env [1, 7] = Inr 100"
    by (simp_all add: toy_env_def failing_resize_env_def)
  have resized: "resize_to toy_env 2500 [40, 1, 2, 3] = Inr [25, 1, 2, 3]"
    and failed: "resize_to failing_resize_env 2500 [40, 1, 2, 3] = Inl (Error ''write failed'', Some [0])"
    by (simp_all add: toy_env_def failing_resize_env_def)
  have shrunk: "fst (processImage toy_env ''photo.jpg'' toy_store) ''photo.jpg'' = Some [25, 2, 3]"
    by (simp add: run_defs toy_env_def toy_store_def)
  show ?thesis
    using processImage_resize_safe [where fs = toy_store and p = "''photo.jpg''", OF img(1) photo wide(1)]
      processImage_resize_safe [where fs = toy_store and p = "''photo.jpg''", OF img(1) photo wide(2)]
      processImage_resize_safe [where fs = toy_store and p = "''icon.png''", OF img(2) icon narrow]
      shrunk
    by (auto simp: resized failed temps MAX_WIDTH_def split: prod.splits)
qed

subsection \<open>Conditional commit (C2)\<close>



subsection \<open>WebP (C3)\<close>

text \<open>
  C3. The plugin chain has a branch for \<^verbatim>\<open>.webp\<close> (quality 80), but the guard of the
  optimisation block lists five extensions without \<^verbatim>\<open>.webp\<close>, so the branch is never
  reached. On the sample store, whose WebP plugin would shorten \<^verbatim>\<open>anim.webp\<close>, the file
  is probed and left as it is: no read, no compressor call, no write.
\<close>

theorem webp_not_recompressed:
  "select_plugins ''.webp'' = [Webp 80]
   \<and> toy_store ''anim.webp'' = Some [3, 8, 9]
   \<and> pipe_plugins toy_env [Webp 80] [3, 8, 9] = Inr [3, 9]
   \<and> processImage toy_env ''anim.webp'' toy_store =
       (toy_store, [Log (Processing ''anim.webp''), Call (Metadata ''anim.webp''), Log (WidthOk 300),
                    Log (Completed ''anim.webp'')])"
  by (simp add: run_defs toy_env_def toy_store_def)

subsection \<open>Unrecognised extensions (C10)\<close>

text \<open>
  C10. A path whose lowercase extension is not one of the six recognised ones makes
  \<^verbatim>\<open>processImage\<close> return at once: the store is returned as it was, and no event at
  all (no probe, read, write, delete or rename, and no log line) is produced.
\<close>

theorem processImage_unrecognised:
  "toLowerCase (extname imagePath) \<notin> set IMAGE_EXTENSIONS \<Longrightarrow>
     processImage env imagePath fs = (fs, [])"
  by (simp add: processImage_def processImage_try_def return_def)

theorem processImage_unrecognised_witness:
  "toLowerCase (extname ''notes.txt'') \<notin> set IMAGE_EXTENSIONS
   \<and> processImage toy_env ''notes.txt'' toy_store = (toy_store, [])"
  using processImage_unrecognised [of "''notes.txt''" toy_env toy_store]
  by (simp add: extname_def last_segment_def toLowerCase_def toLowerCase_char_def
      IMAGE_EXTENSIONS_def)

section \<open>Properties of the loops\<close>

subsection \<open>The percentage\<close>

text \<open>
  Two values of the percentage: 23 of 40 is printed as 57, since the product is the double just
  below 57.5.
\<close>

lemma binade_stop: "b * precision \<le> a * 2 ^ k \<Longrightarrow> binade a b k = k"
  by (subst binade.simps) simp

lemma binade_step: "a \<noteq> 0 \<Longrightarrow> a * 2 ^ k < b * precision \<Longrightarrow> binade a b k = binade a b (Suc k)"
  by (subst binade.simps) simp

lemma binade_least:
  assumes "a \<noteq> 0" and "b * precision \<le> a * 2 ^ k" and "k = 0 \<or> a * 2 ^ (k - 1) < b * precision"
  shows "binade a b 0 = k"
proof -
  have below: "a * 2 ^ j < b * precision" if "j < k" for j
  proof -
    from that assms(3) have last: "a * 2 ^ (k - 1) < b * precision"
      by auto
    from that have "(2::nat) ^ j \<le> 2 ^ (k - 1)"
      by (intro power_increasing) simp_all
    then have "a * 2 ^ j \<le> a * 2 ^ (k - 1)"
      by simp
    then show ?thesis
      using last by (rule le_less_trans)
  qed
  have "binade a b (k - d) = k" if "d \<le> k" for d
    using that
  proof (induction d)
    case 0
    show ?case
      using binade_stop [OF assms(2)] by simp
  next
    case (Suc d)
    then have "k - Suc d < k" and "Suc (k - Suc d) = k - d"
      by simp_all
    with binade_step [OF assms(1) below, of "k - Suc d"] Suc show ?case
      by simp
  qed
  from this [of k] show ?thesis
    by simp
qed

lemma percent_23_of_40: "percent 23 40 = 57"
proof -
  have first: "binade 23 40 0 = 53"
    by (rule binade_least) (simp_all add: precision_def)
  have m1: "nearest_even (23 * 2 ^ 53) 40 = 5179139571476070"
    by (simp add: nearest_even_def Let_def)
  have second: "binade (5179139571476070 * 100) (2 ^ 53) 0 = 47"
    by (rule binade_least) (simp_all add: precision_def)
  have m2: "nearest_even (5179139571476070 * 100 * 2 ^ 47) (2 ^ 53) = 8092405580431359"
    by (simp add: nearest_even_def Let_def)
  have "percent 23 40 = (2 * 8092405580431359 + 2 ^ 47) div 2 ^ (47 + 1)"
    by (simp only: percent_def to_double_def Let_def first m1 second m2 prod.case)
  then show ?thesis
    by simp
qed


lemma percent_1_of_2: "percent 1 2 = 50"
proof -
  have first: "binade 1 2 0 = 53"
    by (rule binade_least) (simp_all add: precision_def)
  have m1: "nearest_even (1 * 2 ^ 53) 2 = 4503599627370496"
    by (simp add: nearest_even_def Let_def)
  have second: "binade (4503599627370496 * 100) (2 ^ 53) 0 = 47"
    by (rule binade_least) (simp_all add: precision_def)
  have m2: "nearest_even (4503599627370496 * 100 * 2 ^ 47) (2 ^ 53) = 7036874417766400"
    by (simp add: nearest_even_def Let_def)
  have "percent 1 2 = (2 * 7036874417766400 + 2 ^ 47) div 2 ^ (47 + 1)"
    by (simp only: percent_def to_double_def Let_def first m1 second m2 prod.case)
  then show ?thesis
    by simp
qed

subsection \<open>The plain loop\<close>

lemma each_in_turn_append:
  "each_in_turn env (xs @ ys) fs =
     (fst (each_in_turn env ys (fst (each_in_turn env xs fs))),
      snd (each_in_turn env xs fs) @ snd (each_in_turn env ys (fst (each_in_turn env xs fs))))"
  by (induction xs arbitrary: fs) (simp_all add: split_beta)

lemma process_each_plain:
  "fst (process_each env len files completed fs) = fst (each_in_turn env files fs)
   \<and> filter per_file (snd (process_each env len files completed fs)) = snd (each_in_turn env files fs)"
  by (induction files arbitrary: completed fs)
     (simp_all add: processImage_per_file split_beta)

lemma process_batch_plain:
  "fst (process_batch env len files completed fs) = completed + length files
   \<and> fst (snd (process_batch env len files completed fs)) = fst (each_in_turn env files fs)
   \<and> filter per_file (snd (snd (process_batch env len files completed fs))) = snd (each_in_turn env files fs)"
  by (induction files arbitrary: completed fs)
     (simp_all add: processImage_per_file Let_def split_beta)

lemma slice_drop: "slice xs i (i + n) @ drop (i + n) xs = drop i xs"
proof -
  have "drop i (take (i + n) xs) = take n (drop i xs)"
    by (simp add: drop_take)
  then show ?thesis
    by (simp add: slice_def add.commute [of i n] flip: drop_drop)
qed


lemma process_batches_done:
  "\<not> i < length files \<Longrightarrow> process_batches env files i completed fs = (fs, [])"
  by (subst process_batches.simps) simp

lemma process_batches_step:
  "i < length files \<Longrightarrow>
   process_batches env files i completed fs =
     (fst (process_batches env files (i + batchSize)
             (fst (process_batch env (length files) (slice files i (i + batchSize)) completed fs))
             (fst (snd (process_batch env (length files) (slice files i (i + batchSize)) completed fs)))),
      [Log (BatchHeader (i div batchSize + 1) ((length files + batchSize - 1) div batchSize))]
      @ snd (snd (process_batch env (length files) (slice files i (i + batchSize)) completed fs))
      @ snd (process_batches env files (i + batchSize)
             (fst (process_batch env (length files) (slice files i (i + batchSize)) completed fs))
             (fst (snd (process_batch env (length files) (slice files i (i + batchSize)) completed fs)))))"
  by (subst process_batches.simps) (simp add: Let_def)

lemma process_batches_plain:
  "fst (process_batches env files i completed fs) = fst (each_in_turn env (drop i files) fs)
   \<and> filter per_file (snd (process_batches env files i completed fs))
       = snd (each_in_turn env (drop i files) fs)"
proof (induction env files i completed fs rule: process_batches.induct)
  case (1 env imageFiles i completed fs)
  show ?case
  proof (cases "i < length imageFiles")
    case False
    then show ?thesis
      by (simp add: process_batches_done)
  next
    case True
    let ?batch = "slice imageFiles i (i + batchSize)"
    let ?r = "process_batch env (length imageFiles) ?batch completed fs"
    have parts: "drop i imageFiles = ?batch @ drop (i + batchSize) imageFiles"
      by (simp add: slice_drop)
    from "1.IH" [OF True refl refl refl]
    have ih: "fst (process_batches env imageFiles (i + batchSize) (fst ?r) (fst (snd ?r)))
          = fst (each_in_turn env (drop (i + batchSize) imageFiles) (fst (snd ?r)))"
      "filter per_file (snd (process_batches env imageFiles (i + batchSize) (fst ?r) (fst (snd ?r))))
          = snd (each_in_turn env (drop (i + batchSize) imageFiles) (fst (snd ?r)))"
      by simp_all
    have batch: "fst (snd ?r) = fst (each_in_turn env ?batch fs)"
      "filter per_file (snd (snd ?r)) = snd (each_in_turn env ?batch fs)"
      using process_batch_plain [of env "length imageFiles" ?batch completed fs] by simp_all
    have whole: "each_in_turn env (drop i imageFiles) fs =
        (fst (each_in_turn env (drop (i + batchSize) imageFiles) (fst (each_in_turn env ?batch fs))),
         snd (each_in_turn env ?batch fs)
         @ snd (each_in_turn env (drop (i + batchSize) imageFiles) (fst (each_in_turn env ?batch fs))))"
      by (subst parts) (rule each_in_turn_append)
    show ?thesis
      unfolding process_batches_step [OF True] whole
      using ih batch by simp
  qed
qed

lemma failure_line_per_file: "failure_line ev \<Longrightarrow> per_file ev"
  by (erule failure_line.elims) simp_all

lemma filter_failure_per_file: "filter failure_line (filter per_file out) = filter failure_line out"
  by (induction out) (auto dest: failure_line_per_file)

lemma processImage_kinds: "list_all (\<lambda>ev. per_file ev \<or> progress_line ev) (snd (processImage env p fs))"
proof -
  have "list_all per_file (snd (processImage env p fs))"
    using processImage_per_file [of env p fs] by (metis Ball_set filter_id_conv)
  then show ?thesis
    by (simp add: list_all_iff)
qed

lemma process_each_kinds:
  "list_all (\<lambda>ev. per_file ev \<or> progress_line ev) (snd (process_each env len files completed fs))"
  by (induction files arbitrary: completed fs) (simp_all add: split_beta processImage_kinds)

lemma process_batch_kinds:
  "list_all (\<lambda>ev. per_file ev \<or> progress_line ev) (snd (snd (process_batch env len files completed fs)))"
  by (induction files arbitrary: completed fs) (simp_all add: split_beta Let_def processImage_kinds)

lemma process_batches_kinds:
  "list_all (\<lambda>ev. per_file ev \<or> progress_line ev) (snd (process_batches env files i completed fs))"
proof (induction env files i completed fs rule: process_batches.induct)
  case (1 env imageFiles i completed fs)
  show ?case
  proof (cases "i < length imageFiles")
    case False
    then show ?thesis
      by (simp add: process_batches_done)
  next
    case True
    from "1.IH" [OF True refl refl refl] show ?thesis
      unfolding process_batches_step [OF True]
      by (simp add: process_batch_kinds)
  qed
qed

subsection \<open>Batching (C7)\<close>

text \<open>
  C7. For every list of files and every store, the batched loop of
  \<^verbatim>\<open>src/unnamed/part_000\<close> and the one-at-a-time loop of \<^verbatim>\<open>src/optimize-images.js\<close>
  end in the same store and produce the same sequence of per-file events (the calls made
  and the lines printed by \<^verbatim>\<open>processImage\<close>), which is the sequence of running
  \<^verbatim>\<open>processImage\<close> on each file once, in list order. Every other event of either loop is
  a batch header, a progress line or an estimate line.
\<close>

theorem batching_transparent:
  "fst (process_batches env files 0 0 fs) = fst (process_each env (length files) files 0 fs)
   \<and> filter per_file (snd (process_batches env files 0 0 fs))
       = filter per_file (snd (process_each env (length files) files 0 fs))
   \<and> filter per_file (snd (process_batches env files 0 0 fs)) = snd (each_in_turn env files fs)
   \<and> list_all (\<lambda>ev. per_file ev \<or> progress_line ev) (snd (process_batches env files 0 0 fs))
   \<and> list_all (\<lambda>ev. per_file ev \<or> progress_line ev) (snd (process_each env (length files) files 0 fs))"
  using process_batches_plain [of env files 0 0 fs] process_each_plain [of env "length files" files 0 fs]
  by (simp add: process_batches_kinds process_each_kinds)

theorem batching_transparent_witness:
  "fst (process_batches toy_env [''photo.jpg'', ''icon.png''] 0 0 toy_store) ''photo.jpg'' = Some [25, 2, 3]
   \<and> fst (process_batches toy_env [''photo.jpg'', ''icon.png''] 0 0 toy_store) ''icon.png'' = Some [1]
   \<and> filter per_file (snd (process_batches toy_env [''photo.jpg'', ''icon.png''] 0 0 toy_store))
       = filter per_file (snd (process_each toy_env 2 [''photo.jpg'', ''icon.png''] 0 toy_store))
   \<and> Log (BatchHeader 1 1) \<in> set (snd (process_batches toy_env [''photo.jpg'', ''icon.png''] 0 0 toy_store))
   \<and> Log (Progress 1 2 50) \<in> set (snd (process_each toy_env 2 [''photo.jpg'', ''icon.png''] 0 toy_store))"
proof -
  have store: "fst (process_each toy_env 2 [''photo.jpg'', ''icon.png''] 0 toy_store) ''photo.jpg'' = Some [25, 2, 3]"
    "fst (process_each toy_env 2 [''photo.jpg'', ''icon.png''] 0 toy_store) ''icon.png'' = Some [1]"
  proof -
    have plain: "fst (process_each toy_env 2 [''photo.jpg'', ''icon.png''] 0 toy_store)
        = fst (each_in_turn toy_env [''photo.jpg'', ''icon.png''] toy_store)"
      by (simp only: process_each_plain)
    show "fst (process_each toy_env 2 [''photo.jpg'', ''icon.png''] 0 toy_store) ''photo.jpg'' = Some [25, 2, 3]"
      unfolding plain by code_simp
    show "fst (process_each toy_env 2 [''photo.jpg'', ''icon.png''] 0 toy_store) ''icon.png'' = Some [1]"
      unfolding plain by code_simp
  qed
  have header: "Log (BatchHeader 1 1) \<in> set (snd (process_batches toy_env [''photo.jpg'', ''icon.png''] 0 0 toy_store))"
    by (simp add: process_batches_step batchSize_def)
  have progress: "Log (Progress 1 2 50) \<in> set (snd (process_each toy_env 2 [''photo.jpg'', ''icon.png''] 0 toy_store))"
    using percent_1_of_2 by (simp add: split_beta)
  have len: "length [''photo.jpg'', ''icon.png''] = 2"
    by simp
  have same: "fst (process_batches toy_env [''photo.jpg'', ''icon.png''] 0 0 toy_store)
        = fst (process_each toy_env 2 [''photo.jpg'', ''icon.png''] 0 toy_store)"
    "filter per_file (snd (process_batches toy_env [''photo.jpg'', ''icon.png''] 0 0 toy_store))
        = filter per_file (snd (process_each toy_env 2 [''photo.jpg'', ''icon.png''] 0 toy_store))"
    using batching_transparent [of toy_env "[''photo.jpg'', ''icon.png'']" toy_store]
    unfolding len by blast+
  show ?thesis
    by (simp only: same store header progress simp_thms)
qed

subsection \<open>Isolation (C4)\<close>

lemma each_in_turn_frame:
  "q \<notin> set files \<Longrightarrow> \<forall>p\<in>set files. q \<noteq> p @ ''.temp'' \<Longrightarrow> fst (each_in_turn env files fs) q = fs q"
  by (induction files arbitrary: fs) (simp_all add: split_beta processImage_frame)

lemma image_not_temp:
  "toLowerCase (extname q) \<in> set IMAGE_EXTENSIONS \<Longrightarrow> q \<noteq> p @ ''.temp''"
  using temp_not_image [of p] by auto

lemma each_in_turn_alone:
  assumes "distinct files" and "\<forall>p\<in>set files. toLowerCase (extname p) \<in> set IMAGE_EXTENSIONS"
  shows "snd (each_in_turn env files fs) = concat (map (\<lambda>p. snd (processImage env p fs)) files)
       \<and> (\<forall>q\<in>set files. fst (each_in_turn env files fs) q = fst (processImage env q fs) q)"
  using assms
proof (induction files arbitrary: fs)
  case Nil
  show ?case by simp
next
  case (Cons a files)
  let ?fs1 = "fst (processImage env a fs)"
  have untouched: "?fs1 q = fs q" if "q \<in> set files" for q
  proof -
    from that Cons.prems have "q \<noteq> a" and "toLowerCase (extname q) \<in> set IMAGE_EXTENSIONS"
      by auto
    then show ?thesis
      by (simp add: processImage_frame image_not_temp)
  qed
  have ih: "snd (each_in_turn env files ?fs1) = concat (map (\<lambda>p. snd (processImage env p ?fs1)) files)"
    "\<forall>q\<in>set files. fst (each_in_turn env files ?fs1) q = fst (processImage env q ?fs1) q"
    using Cons.IH [of ?fs1] Cons.prems by simp_all
  have same: "map (\<lambda>p. snd (processImage env p ?fs1)) files = map (\<lambda>p. snd (processImage env p fs)) files"
  proof (rule map_cong [OF refl])
    fix q
    assume "q \<in> set files"
    from untouched [OF this] show "snd (processImage env q ?fs1) = snd (processImage env q fs)"
      by (rule processImage_local(1))
  qed
  have first: "fst (each_in_turn env files ?fs1) a = ?fs1 a"
  proof (rule each_in_turn_frame)
    show "a \<notin> set files"
      using Cons.prems by simp
    show "\<forall>p\<in>set files. a \<noteq> p @ ''.temp''"
      using Cons.prems by (simp add: image_not_temp)
  qed
  have rest: "fst (each_in_turn env files ?fs1) q = fst (processImage env q fs) q" if "q \<in> set files" for q
  proof -
    from untouched [OF that] have "fst (processImage env q ?fs1) q = fst (processImage env q fs) q"
      by (rule processImage_local(2))
    with ih(2) that show ?thesis
      by simp
  qed
  show ?case
    by (simp add: split_beta ih(1) same first rest)
qed

lemma concat_single:
  assumes "distinct xs" and "k \<in> set xs" and "\<forall>x\<in>set xs. x \<noteq> k \<longrightarrow> f x = []"
  shows "concat (map f xs) = f k"
  using assms by (induction xs) auto

lemma alone_failures:
  assumes "distinct files" and "k \<in> set files" and "raises env fs k = Some e"
    and "\<forall>p\<in>set files. p \<noteq> k \<longrightarrow> raises env fs p = None"
  shows "filter failure_line (concat (map (\<lambda>p. snd (processImage env p fs)) files))
       = [Log (ErrorProcessing k (message e))]"
proof -
  have "filter failure_line (concat (map (\<lambda>p. snd (processImage env p fs)) files))
      = concat (map (\<lambda>p. filter failure_line (snd (processImage env p fs))) files)"
    by (simp add: filter_concat comp_def)
  also have "\<dots> = filter failure_line (snd (processImage env k fs))"
    using assms(4) by (intro concat_single [OF assms(1,2)]) (simp add: processImage_failures)
  finally show ?thesis
    by (simp add: processImage_failures assms(3))
qed

text \<open>
  C4. An error thrown in the body of \<^verbatim>\<open>processImage\<close> is caught there: the call returns
  normally, with the events of the body followed by one line that carries the path and the
  error's message. Hence, for a list of distinct image files of which exactly one, \<open>k\<close>,
  makes the body throw, both loops log exactly one failure line, the one of \<open>k\<close>; every
  other file reaches its \<^verbatim>\<open>Completed processing\<close> line and ends with the content that
  processing it alone would have given it.
\<close>

theorem failure_isolated:
  assumes "distinct files"
    and "\<forall>p\<in>set files. toLowerCase (extname p) \<in> set IMAGE_EXTENSIONS"
    and "k \<in> set files"
    and "raises env fs k = Some e"
    and "\<forall>p\<in>set files. p \<noteq> k \<longrightarrow> raises env fs p = None"
  shows "processImage env k fs =
           (fst (snd (processImage_try env k fs)),
            snd (snd (processImage_try env k fs)) @ [Log (ErrorProcessing k (message e))])
       \<and> filter failure_line (snd (process_batches env files 0 0 fs)) = [Log (ErrorProcessing k (message e))]
       \<and> filter failure_line (snd (process_each env (length files) files 0 fs)) = [Log (ErrorProcessing k (message e))]
       \<and> (\<forall>p\<in>set files. p \<noteq> k \<longrightarrow>
            Log (Completed p) \<in> set (snd (process_batches env files 0 0 fs))
            \<and> Log (Completed p) \<in> set (snd (process_each env (length files) files 0 fs))
            \<and> fst (process_batches env files 0 0 fs) p = fst (processImage env p fs) p
            \<and> fst (process_each env (length files) files 0 fs) p = fst (processImage env p fs) p)"
proof -
  let ?alone = "concat (map (\<lambda>p. snd (processImage env p fs)) files)"
  have caught: "processImage env k fs =
           (fst (snd (processImage_try env k fs)),
            snd (snd (processImage_try env k fs)) @ [Log (ErrorProcessing k (message e))])"
    using assms(4) by (simp add: processImage_via_try raises_def split: sum.splits)
  have alone: "snd (each_in_turn env files fs) = ?alone"
    and stores: "\<forall>q\<in>set files. fst (each_in_turn env files fs) q = fst (processImage env q fs) q"
    using each_in_turn_alone [OF assms(1,2), of env fs] by simp_all
  have batched: "fst (process_batches env files 0 0 fs) = fst (each_in_turn env files fs)"
    "filter per_file (snd (process_batches env files 0 0 fs)) = ?alone"
    using process_batches_plain [of env files 0 0 fs] alone by simp_all
  have single: "fst (process_each env (length files) files 0 fs) = fst (each_in_turn env files fs)"
    "filter per_file (snd (process_each env (length files) files 0 fs)) = ?alone"
    using process_each_plain [of env "length files" files 0 fs] alone by simp_all
  have failures: "filter failure_line ?alone = [Log (ErrorProcessing k (message e))]"
    by (rule alone_failures [OF assms(1,3,4,5)])
  have one_batched: "filter failure_line (snd (process_batches env files 0 0 fs)) = [Log (ErrorProcessing k (message e))]"
    using filter_failure_per_file [of "snd (process_batches env files 0 0 fs)"] failures
    by (simp add: batched(2))
  have one_single: "filter failure_line (snd (process_each env (length files) files 0 fs)) = [Log (ErrorProcessing k (message e))]"
    using filter_failure_per_file [of "snd (process_each env (length files) files 0 fs)"] failures
    by (simp add: single(2))
  have others: "Log (Completed p) \<in> set (snd (process_batches env files 0 0 fs))
      \<and> Log (Completed p) \<in> set (snd (process_each env (length files) files 0 fs))
      \<and> fst (process_batches env files 0 0 fs) p = fst (processImage env p fs) p
      \<and> fst (process_each env (length files) files 0 fs) p = fst (processImage env p fs) p"
    if "p \<in> set files" and "p \<noteq> k" for p
  proof -
    from that assms(2,5) have "Log (Completed p) \<in> set (snd (processImage env p fs))"
      by (intro processImage_completed) simp_all
    with that(1) have "Log (Completed p) \<in> set ?alone"
      by auto
    then have "Log (Completed p) \<in> set (filter per_file (snd (process_batches env files 0 0 fs)))"
      and "Log (Completed p) \<in> set (filter per_file (snd (process_each env (length files) files 0 fs)))"
      by (simp_all only: batched(2) single(2))
    then show ?thesis
      using stores that(1) by (simp add: batched(1) single(1))
  qed
  show ?thesis
    using caught one_batched one_single others by blast
qed

theorem failure_isolated_witness:
  "raises toy_env toy_store ''broken.jpg'' = Some (Error ''Input buffer is empty'')
   \<and> raises toy_env toy_store ''photo.jpg'' = None
   \<and> raises toy_env toy_store ''icon.png'' = None
   \<and> filter failure_line (snd (process_batches toy_env [''photo.jpg'', ''broken.jpg'', ''icon.png''] 0 0 toy_store))
       = [Log (ErrorProcessing ''broken.jpg'' ''Input buffer is empty'')]
   \<and> Log (Completed ''photo.jpg'') \<in> set (snd (process_batches toy_env [''photo.jpg'', ''broken.jpg'', ''icon.png''] 0 0 toy_store))
   \<and> Log (Completed ''icon.png'') \<in> set (snd (process_batches toy_env [''photo.jpg'', ''broken.jpg'', ''icon.png''] 0 0 toy_store))"
proof -
  have names: "\<forall>p\<in>set [''photo.jpg'', ''broken.jpg'', ''icon.png'']. toLowerCase (extname p) \<in> set IMAGE_EXTENSIONS"
    by (simp add: extname_def last_segment_def toLowerCase_def toLowerCase_char_def IMAGE_EXTENSIONS_def)
  have bad: "raises toy_env toy_store ''broken.jpg'' = Some (Error ''Input buffer is empty'')"
    by (simp add: raises_def run_defs toy_env_def toy_store_def)
  have good: "raises toy_env toy_store ''photo.jpg'' = None" "raises toy_env toy_store ''icon.png'' = None"
    by (simp_all add: raises_def run_defs toy_env_def toy_store_def)
  have rest: "\<forall>p\<in>set [''photo.jpg'', ''broken.jpg'', ''icon.png'']. p \<noteq> ''broken.jpg'' \<longrightarrow> raises toy_env toy_store p = None"
    using good by simp
  have "distinct [''photo.jpg'', ''broken.jpg'', ''icon.png'']" and "''broken.jpg'' \<in> set [''photo.jpg'', ''broken.jpg'', ''icon.png'']"
    by simp_all
  from failure_isolated [OF this(1) names this(2) bad rest] show ?thesis
    using bad good by simp
qed

section \<open>Properties of discovery\<close>

subsection \<open>Unlistable directories (C8)\<close>

lemma scan_entries_images:
  "mset (snd (scan_entries d es q f)) + (\<Sum>(c, n)\<leftarrow>fst (scan_entries d es q f). mset (listable_images c n))
   = mset f + (\<Sum>(c, n)\<leftarrow>q. mset (listable_images c n)) + mset (listable_images d (Dir es))"
proof (induction es arbitrary: q f)
  case Nil
  show ?case by simp
next
  case (Cons a es)
  obtain name m where a: "a = (name, m)"
    by (cases a)
  show ?case
    using Cons.IH [of "q @ [(path_join d name, m)]" f] Cons.IH [of q f]
      Cons.IH [of q "f @ [path_join d name]"]
    by (simp add: a Let_def)
qed

lemma scan_entries_failures:
  "(\<Sum>(c, n)\<leftarrow>fst (scan_entries d es q f). mset (listing_failures c n))
   = (\<Sum>(c, n)\<leftarrow>q. mset (listing_failures c n)) + mset (listing_failures d (Dir es))"
proof (induction es arbitrary: q f)
  case Nil
  show ?case by simp
next
  case (Cons a es)
  obtain name m where a: "a = (name, m)"
    by (cases a)
  show ?case
    using Cons.IH [of "q @ [(path_join d name, m)]" f] Cons.IH [of q f]
      Cons.IH [of q "f @ [path_join d name]"]
    by (simp add: a Let_def)
qed

lemma readdirSync_Inr:
  "readdirSync n = Inr entries \<Longrightarrow>
   listable_images d n = listable_images d (Dir entries) \<and> listing_failures d n = listing_failures d (Dir entries)"
  by (induction n) simp_all

lemma readdirSync_Inl:
  "readdirSync n = Inl e \<Longrightarrow> listable_images d n = [] \<and> listing_failures d n = [Log (ErrorReadingDirectory d (message e))]"
  by (induction n) simp_all

lemma walk_finds:
  "mset (fst (walk queue files out)) = mset files + (\<Sum>(c, n)\<leftarrow>queue. mset (listable_images c n))
   \<and> mset (snd (walk queue files out)) = mset out + (\<Sum>(c, n)\<leftarrow>queue. mset (listing_failures c n))"
proof (induction queue files out rule: walk.induct)
  case (1 files out)
  show ?case by simp
next
  case (2 currentDir n queue files out)
  show ?case
  proof (cases "readdirSync n")
    case (Inl e)
    from "2.IH"(1) [OF Inl] readdirSync_Inl [OF Inl, of currentDir] show ?thesis
      by (simp add: Inl)
  next
    case (Inr entries)
    from "2.IH"(2) [OF Inr] scan_entries_images [of currentDir entries queue files]
      scan_entries_failures [of currentDir entries queue files] readdirSync_Inr [OF Inr, of currentDir]
    show ?thesis
      by (simp add: Inr ac_simps)
  qed
qed

text \<open>
  C8. Discovery is total: whatever the tree, the worklist loop ends and returns. The files
  it returns are, each exactly once, the image files of every directory reached through
  directories that can be listed; a directory whose listing throws contributes one logged
  failure line and nothing else, so only its own subtree is missing and the files of its
  siblings are still returned.
\<close>

theorem discovery_tolerates_unlistable:
  "mset (fst (getAllFilesIterative tree)) = mset (listable_images ''.'' tree)
   \<and> mset (snd (getAllFilesIterative tree)) = mset (listing_failures ''.'' tree)"
  using walk_finds [of "[(''.'', tree)]" "[]" "[]"] by (simp add: getAllFilesIterative_def)

theorem discovery_tolerates_unlistable_witness:
  "getAllFilesIterative toy_tree =
     ([''photo.jpg'', ''Logo.SVG'', ''2024/icon.png''],
      [Log (ErrorReadingDirectory ''private'' ''EACCES: permission denied, scandir'')])
   \<and> mset (listable_images ''.'' toy_tree) = mset [''photo.jpg'', ''Logo.SVG'', ''2024/icon.png'']
   \<and> listing_failures ''.'' toy_tree
       = [Log (ErrorReadingDirectory ''private'' ''EACCES: permission denied, scandir'')]"
proof -
  have run: "getAllFilesIterative toy_tree =
     ([''photo.jpg'', ''Logo.SVG'', ''2024/icon.png''],
      [Log (ErrorReadingDirectory ''private'' ''EACCES: permission denied, scandir'')])"
    by code_simp
  have failures: "listing_failures ''.'' toy_tree
       = [Log (ErrorReadingDirectory ''private'' ''EACCES: permission denied, scandir'')]"
    by code_simp
  show ?thesis
    using discovery_tolerates_unlistable [of toy_tree] run failures by simp
qed

subsection \<open>Names and patterns\<close>

lemma last_segment_plain: "CHR ''/'' \<notin> set name \<Longrightarrow> last_segment name = name"
proof -
  assume a: "CHR ''/'' \<notin> set name"
  then have d: "dropWhile (\<lambda>c. c = CHR ''/'') (rev name) = rev name"
    by (cases "rev name") (auto simp: in_set_conv_decomp)
  have t: "takeWhile (\<lambda>c. c \<noteq> CHR ''/'') (rev name) = rev name"
    using a by (auto simp: takeWhile_eq_all_conv)
  show ?thesis
    by (simp add: last_segment_def d t)
qed

lemma extname_split:
  assumes "CHR ''/'' \<notin> set s" and "CHR ''/'' \<notin> set t" and "CHR ''.'' \<notin> set t"
    and "s \<noteq> []" and "hd s \<noteq> CHR ''.''"
  shows "extname (s @ CHR ''.'' # t) = CHR ''.'' # t"
proof -
  have seg: "last_segment (s @ CHR ''.'' # t) = s @ CHR ''.'' # t"
    using assms(1,2) by (intro last_segment_plain) simp
  have tw: "takeWhile (\<lambda>c. c \<noteq> CHR ''.'') (rev t @ CHR ''.'' # rev s) = rev t"
    using assms(3) by (subst takeWhile_append2) auto
  have dw: "dropWhile (\<lambda>c. c \<noteq> CHR ''.'') (rev t @ CHR ''.'' # rev s) = CHR ''.'' # rev s"
    using assms(3) by (subst dropWhile_append2) auto
  have "s @ CHR ''.'' # t \<noteq> ''..''"
    using assms(4,5) by (cases s) auto
  then show ?thesis
    using assms(4) by (simp add: extname_def seg tw dw)
qed

lemma extname_suffix:
  assumes "CHR ''/'' \<notin> set name" and "extname name \<noteq> []"
  shows "\<exists>s. name = s @ extname name"
proof -
  let ?P = "\<lambda>c. c \<noteq> CHR ''.''"
  from assms have dot: "CHR ''.'' \<in> set name"
    by (auto simp: extname_def last_segment_plain Let_def split: if_splits)
  then have ne: "dropWhile ?P (rev name) \<noteq> []"
    by (auto simp: dropWhile_eq_Nil_conv)
  obtain r where r: "dropWhile ?P (rev name) = CHR ''.'' # r"
    using ne hd_dropWhile [OF ne] by (cases "dropWhile ?P (rev name)") auto
  have "rev name = takeWhile ?P (rev name) @ dropWhile ?P (rev name)"
    by simp
  then have "rev name = takeWhile ?P (rev name) @ CHR ''.'' # r"
    by (simp only: r)
  then have "rev (rev name) = rev (takeWhile ?P (rev name) @ CHR ''.'' # r)"
    by (rule arg_cong)
  then have "name = rev r @ CHR ''.'' # rev (takeWhile ?P (rev name))"
    by simp
  moreover have "extname name = CHR ''.'' # rev (takeWhile ?P (rev name))"
    using assms by (auto simp: extname_def last_segment_plain Let_def split: if_splits)
  ultimately show ?thesis
    by metis
qed


lemma toLowerCase_char_dot: "toLowerCase_char c = CHR ''.'' \<longleftrightarrow> c = CHR ''.''"
  by (auto simp: toLowerCase_char_def split: option.splits if_splits)

lemma toLowerCase_append: "toLowerCase (a @ b) = toLowerCase a @ toLowerCase b"
  by (simp add: toLowerCase_def)

lemma toLowerCase_dot_free: "CHR ''.'' \<notin> set (toLowerCase t) \<longleftrightarrow> CHR ''.'' \<notin> set t"
  by (simp add: toLowerCase_def image_iff) (metis toLowerCase_char_dot)

lemma image_extension_shape:
  "ext \<in> set IMAGE_EXTENSIONS \<Longrightarrow> toLowerCase ext = ext \<and> (\<exists>e. ext = CHR ''.'' # e \<and> CHR ''.'' \<notin> set e)"
  by (auto simp: IMAGE_EXTENSIONS_def toLowerCase_def toLowerCase_char_def)

lemma image_name_matches:
  assumes "CHR ''/'' \<notin> set name" and "\<not> hidden name"
    and "toLowerCase (extname name) \<in> set IMAGE_EXTENSIONS" and "\<not> line_terminator_first name"
  shows "star_match (toLowerCase (extname name)) name"
proof -
  from assms(3) have ne: "extname name \<noteq> []"
    by (auto simp: IMAGE_EXTENSIONS_def toLowerCase_def)
  then obtain s where s: "name = s @ extname name"
    using extname_suffix [OF assms(1)] by blast
  have "toLowerCase name = toLowerCase s @ toLowerCase (extname name)"
    by (subst s) (rule toLowerCase_append)
  then have "ends_with (toLowerCase name) (toLowerCase (extname name))"
    by (simp add: ends_with_def)
  moreover have "toLowerCase (toLowerCase (extname name)) = toLowerCase (extname name)"
    using image_extension_shape [OF assms(3)] by simp
  moreover have "name \<noteq> []"
    using s ne by auto
  ultimately show ?thesis
    using assms(2,4) by (simp add: star_match_def)
qed

lemma match_is_image_name:
  assumes "CHR ''/'' \<notin> set name" and "ext \<in> set IMAGE_EXTENSIONS" and "star_match ext name"
  shows "toLowerCase (extname name) = ext"
proof -
  from image_extension_shape [OF assms(2)] obtain e
    where low: "toLowerCase ext = ext" and ext: "ext = CHR ''.'' # e" and e: "CHR ''.'' \<notin> set e"
    by blast
  have len: "length (toLowerCase name) = length name"
    by (simp add: toLowerCase_def)
  from assms(3) have ne: "name \<noteq> []" and vis: "\<not> hidden name"
    and ends: "length ext \<le> length name" "drop (length name - length ext) (toLowerCase name) = ext"
    by (simp_all add: star_match_def ends_with_def low len)
  define k where "k = length name - length ext"
  define s where "s = take k name"
  define t' where "t' = drop k name"
  have name: "name = s @ t'"
    by (simp add: s_def t'_def)
  have "toLowerCase t' = ext"
    using ends(2) by (simp add: t'_def k_def toLowerCase_def drop_map)
  then obtain c t where t': "t' = c # t" and c: "toLowerCase_char c = CHR ''.''" and t: "toLowerCase t = e"
    by (cases t') (auto simp: ext toLowerCase_def)
  have c_dot: "c = CHR ''.''"
    using c by (simp add: toLowerCase_char_dot)
  have t_free: "CHR ''.'' \<notin> set t"
    using e t toLowerCase_dot_free [of t] by simp
  have s_ne: "s \<noteq> []"
    using vis name t' c_dot by (cases s) (auto simp: hidden_def)
  have hd_s: "hd s \<noteq> CHR ''.''"
    using vis name s_ne by (cases s) (auto simp: hidden_def)
  have "extname (s @ CHR ''.'' # t) = CHR ''.'' # t"
    using assms(1) name t' s_ne hd_s t_free by (intro extname_split) auto
  then show ?thesis
    using name t' c_dot t by (simp add: ext toLowerCase_def toLowerCase_char_dot)
qed

lemma image_name_iff_match:
  assumes "CHR ''/'' \<notin> set name" and "\<not> hidden name" and "\<not> line_terminator_first name"
  shows "toLowerCase (extname name) \<in> set IMAGE_EXTENSIONS \<longleftrightarrow> (\<exists>ext\<in>set IMAGE_EXTENSIONS. star_match ext name)"
  using image_name_matches [OF assms(1,2) _ assms(3)] match_is_image_name [OF assms(1)] by auto

subsection \<open>Glob against worklist (C6)\<close>

lemma not_directory_no_images:
  "\<not> isDirectory m \<Longrightarrow> plain_tree m \<Longrightarrow> listable_images d m = [] \<and> glob_plain ext d m = []"
  by (cases m) simp_all

lemma glob_matches_listable:
  "plain_tree n \<Longrightarrow> (\<Union>ext\<in>set IMAGE_EXTENSIONS. set (glob_plain ext d n)) = set (listable_images d n)"
proof (induction n arbitrary: d)
  case (Dir entries)
  let ?G = "\<lambda>ext (name, m). if hidden name then []
        else (if star_match ext name then [path_join d name] else []) @ glob_plain ext (path_join d name) m"
  let ?L = "\<lambda>(name, m). if isDirectory m then listable_images (path_join d name) m
        else if isFile m \<and> toLowerCase (extname name) \<in> set IMAGE_EXTENSIONS then [path_join d name]
        else []"
  have entry: "(\<Union>ext\<in>set IMAGE_EXTENSIONS. set (?G ext x)) = set (?L x)" if x: "x \<in> set entries" for x
  proof -
    obtain name m where nm: "x = (name, m)"
      by (cases x)
    from Dir.prems x nm have ok: "CHR ''/'' \<notin> set name" "\<not> hidden name"
      "toLowerCase (extname name) \<in> set IMAGE_EXTENSIONS \<longrightarrow> isFile m" "plain_tree m"
      "\<not> line_terminator_first name"
      by (auto simp: list_all_iff)
    have sub: "(\<Union>ext\<in>set IMAGE_EXTENSIONS. set (glob_plain ext (path_join d name) m))
        = set (listable_images (path_join d name) m)"
      using Dir.IH [of x m "path_join d name"] x nm ok(4) by simp
    show ?thesis
    proof (cases "toLowerCase (extname name) \<in> set IMAGE_EXTENSIONS")
      case True
      with ok(3) have regular: "isFile m" by simp
      then have m: "m = File"
        by (cases m) simp_all
      have "\<exists>ext\<in>set IMAGE_EXTENSIONS. star_match ext name"
        using image_name_iff_match [OF ok(1,2,5)] True by simp
      then show ?thesis
        using True ok(2) by (auto simp: nm m)
    next
      case plain_name: False
      then have none: "\<forall>ext\<in>set IMAGE_EXTENSIONS. \<not> star_match ext name"
        using image_name_iff_match [OF ok(1,2,5)] by simp
      show ?thesis
      proof (cases "isDirectory m")
        case True
        then show ?thesis
          using none ok(2) sub plain_name by (simp add: nm)
      next
        case False
        then show ?thesis
          using none ok(2) plain_name not_directory_no_images [OF False ok(4)] by (simp add: nm)
      qed
    qed
  qed
  have "(\<Union>ext\<in>set IMAGE_EXTENSIONS. set (glob_plain ext d (Dir entries)))
      = (\<Union>x\<in>set entries. \<Union>ext\<in>set IMAGE_EXTENSIONS. set (?G ext x))"
    by auto
  also have "\<dots> = (\<Union>x\<in>set entries. set (?L x))"
    using entry by simp
  also have "\<dots> = set (listable_images d (Dir entries))"
    by simp
  finally show ?case .
qed simp_all

text \<open>On a plain tree no listing fails and no link is met, so glob returns its matches.\<close>

lemma plain_not_link:
  "plain_tree m \<Longrightarrow> (case m of Symlink target \<Rightarrow> a target | _ \<Rightarrow> b) = b"
  by (cases m) simp_all

lemma glob_walk_plain: "plain_tree n \<Longrightarrow> glob_walk ext d n = Inr (glob_plain ext d n)"
proof (induction n arbitrary: d)
  case (Dir entries)
  have "glob_entries ext d (map (\<lambda>(name, n). (name, n, glob_walk ext (path_join d name) n)) es)
      = Inr (concat (map (\<lambda>(name, n). if hidden name then []
              else (if star_match ext name then [path_join d name] else [])
                   @ glob_plain ext (path_join d name) n) es))"
    if "set es \<subseteq> set entries" for es
    using that
  proof (induction es)
    case Nil
    show ?case by simp
  next
    case (Cons x es)
    obtain name m where nm: "x = (name, m)"
      by (cases x)
    from Cons.prems nm have mem: "(name, m) \<in> set entries"
      by simp
    with Dir.prems have plain: "plain_tree m"
      by (auto simp: list_all_iff)
    have below: "glob_walk ext (path_join d name) m = Inr (glob_plain ext (path_join d name) m)"
      using Dir.IH [of "(name, m)" m "path_join d name"] mem plain by simp
    from Cons.IH Cons.prems show ?case
      by (simp add: nm below plain_not_link [OF plain])
  qed
  from this [of entries] show ?case
    by simp
qed simp_all

lemma glob_patterns_plain:
  "process_cwd env = Inr cwd \<Longrightarrow> plain_tree tree \<Longrightarrow>
   glob_patterns env tree exts acc
     = Inr (acc @ concat (map (\<lambda>ext. map (absolute cwd) (glob_plain ext ''.'' tree)) exts))"
  by (induction exts arbitrary: acc) (simp_all add: globPromise_def glob_walk_plain)

text \<open>
  C6, as amended. On a tree in which every directory can be listed, no entry is a symbolic
  link to a directory, every name is a proper entry name that starts neither with a dot
  nor with a line terminator, and every entry with an image name is a regular file, and
  when the working directory can be read, the glob strategy succeeds and reports exactly
  the files that the worklist strategy reports, each made absolute against the working
  directory.
\<close>

theorem discovery_agrees_on_plain_trees:
  assumes "plain_tree tree" and "process_cwd env = Inr cwd"
  shows "\<exists>files. glob_patterns env tree IMAGE_EXTENSIONS [] = Inr files
       \<and> set files = absolute cwd ` set (fst (getAllFilesIterative tree))"
proof -
  have iter: "set (fst (getAllFilesIterative tree)) = set (listable_images ''.'' tree)"
    using walk_finds [of "[(''.'', tree)]" "[]" "[]"]
    by (auto simp: getAllFilesIterative_def dest: mset_eq_setD)
  have "set (concat (map (\<lambda>ext. map (absolute cwd) (glob_plain ext ''.'' tree)) IMAGE_EXTENSIONS))
      = absolute cwd ` (\<Union>ext\<in>set IMAGE_EXTENSIONS. set (glob_plain ext ''.'' tree))"
    by auto
  also have "\<dots> = absolute cwd ` set (fst (getAllFilesIterative tree))"
    by (simp only: glob_matches_listable [OF assms(1)] iter)
  finally show ?thesis
    by (simp add: glob_patterns_plain [OF assms(2,1)])
qed

theorem discovery_agrees_on_plain_trees_witness:
  "plain_tree plain_sample_tree \<and> process_cwd toy_env = Inr ''/srv/uploads''
   \<and> glob_patterns toy_env plain_sample_tree IMAGE_EXTENSIONS []
       = Inr [''/srv/uploads/photo.jpg'', ''/srv/uploads/2024/icon.png'', ''/srv/uploads/Logo.SVG'']
   \<and> fst (getAllFilesIterative plain_sample_tree) = [''photo.jpg'', ''Logo.SVG'', ''2024/icon.png'']
   \<and> set [''/srv/uploads/photo.jpg'', ''/srv/uploads/2024/icon.png'', ''/srv/uploads/Logo.SVG'']
       = absolute ''/srv/uploads'' ` set (fst (getAllFilesIterative plain_sample_tree))"
proof -
  have plain: "plain_tree plain_sample_tree"
    by code_simp
  have cwd: "process_cwd toy_env = Inr ''/srv/uploads''"
    by (simp add: toy_env_def)
  have glob: "glob_patterns toy_env plain_sample_tree IMAGE_EXTENSIONS []
       = Inr [''/srv/uploads/photo.jpg'', ''/srv/uploads/2024/icon.png'', ''/srv/uploads/Logo.SVG'']"
    by code_simp
  have iter: "fst (getAllFilesIterative plain_sample_tree) = [''photo.jpg'', ''Logo.SVG'', ''2024/icon.png'']"
    by code_simp
  from discovery_agrees_on_plain_trees [OF plain cwd] glob
  have "set [''/srv/uploads/photo.jpg'', ''/srv/uploads/2024/icon.png'', ''/srv/uploads/Logo.SVG'']
       = absolute ''/srv/uploads'' ` set (fst (getAllFilesIterative plain_sample_tree))"
    by simp
  with plain cwd glob iter show ?thesis
    by (simp only: simp_thms)
qed

text \<open>
  C6, as stated, fails: with a file \<^verbatim>\<open>.thumb.png\<close> next to \<^verbatim>\<open>a.jpg\<close>, the glob
  patterns skip the dot file (the option \<^verbatim>\<open>dot\<close> is not set) while the worklist takes it
  by its extension, so the two file sets differ, also after the relative paths are made
  absolute.
\<close>

theorem discovery_differs_on_hidden_file:
  "glob_patterns toy_env hidden_tree IMAGE_EXTENSIONS [] = Inr [''/srv/uploads/a.jpg'']
   \<and> fst (getAllFilesIterative hidden_tree) = [''.thumb.png'', ''a.jpg'']
   \<and> set [''/srv/uploads/a.jpg''] \<noteq> absolute ''/srv/uploads'' ` set [''.thumb.png'', ''a.jpg'']
   \<and> set [''/srv/uploads/a.jpg''] \<noteq> set [''.thumb.png'', ''a.jpg'']"
proof -
  have glob: "glob_patterns toy_env hidden_tree IMAGE_EXTENSIONS [] = Inr [''/srv/uploads/a.jpg'']"
    by code_simp
  have iter: "fst (getAllFilesIterative hidden_tree) = [''.thumb.png'', ''a.jpg'']"
    by code_simp
  show ?thesis
    by (simp add: glob iter absolute_def)
qed

text \<open>
  The other conditions of the amended statement are needed as well. With a directory that
  cannot be listed, the glob call fails where the worklist logs and goes on; glob reports
  the files directly inside a linked directory, which the worklist does not enter; and
  glob reports a directory that has an image name, which the worklist does not.
\<close>

lemma discovery_differs_otherwise:
  "glob_patterns toy_env locked_tree IMAGE_EXTENSIONS [] = Inl (Error ''EACCES: permission denied, scandir'')"
  "getAllFilesIterative locked_tree
     = ([''a.jpg''], [Log (ErrorReadingDirectory ''private'' ''EACCES: permission denied, scandir'')])"
  "glob_patterns toy_env linked_tree IMAGE_EXTENSIONS []
     = Inr [''/srv/uploads/a.jpg'', ''/srv/uploads/album/c.jpeg'']"
  "getAllFilesIterative linked_tree = ([''a.jpg''], [])"
  "glob_patterns toy_env named_dir_tree IMAGE_EXTENSIONS []
     = Inr [''/srv/uploads/a.jpg'', ''/srv/uploads/shots.png'']"
  "getAllFilesIterative named_dir_tree = ([''a.jpg''], [])"
  by code_simp+

section \<open>Properties of a whole run\<close>

lemma processImage_keeps_optimized:
  assumes "already_optimized env fs p"
  shows "fst (processImage env p fs) = fs"
proof (cases "toLowerCase (extname p) \<in> set IMAGE_EXTENSIONS")
  case False
  then show ?thesis
    by (simp add: processImage_via_try processImage_try_skip)
next
  case img: True
  from assms obtain b w where b: "fs p = Some b" and w: "probe_width env b = Inr w" "w \<le> MAX_WIDTH"
    and opt: "case pipe_plugins env (select_plugins (toLowerCase (extname p))) b of
                Inl e \<Rightarrow> True | Inr opt \<Rightarrow> \<not> length opt < length b"
    by (auto simp: already_optimized_def split: option.splits sum.splits)
  have "fst (snd (optimize_step env p (toLowerCase (extname p)) fs)) = fs"
  proof (cases "toLowerCase (extname p) \<in> set [''.jpg'', ''.jpeg'', ''.png'', ''.gif'', ''.svg'']")
    case False
    then show ?thesis
      by (simp add: optimize_step_skip)
  next
    case five: True
    show ?thesis
      using opt
      by (simp add: optimize_step_run [where fs = fs and p = p, OF five b] split: sum.splits)
  qed
  then show ?thesis
    by (auto simp: processImage_image [OF img] b w resize_step_noop split: prod.splits)
qed

lemma already_optimized_local: "t p = s p \<Longrightarrow> already_optimized env t p = already_optimized env s p"
  by (simp add: already_optimized_def)

lemma processImage_spares_optimized:
  assumes "toLowerCase (extname p) \<in> set IMAGE_EXTENSIONS" and "already_optimized env fs p"
  shows "fst (processImage env q fs) p = fs p"
proof (cases "q = p")
  case True
  then show ?thesis
    using processImage_keeps_optimized [OF assms(2)] by simp
next
  case False
  then show ?thesis
    using image_not_temp [OF assms(1), of q] by (simp add: processImage_frame)
qed

lemma each_in_turn_spares_optimized:
  assumes "toLowerCase (extname p) \<in> set IMAGE_EXTENSIONS" and "already_optimized env fs p"
  shows "fst (each_in_turn env files fs) p = fs p"
  using assms(2)
proof (induction files arbitrary: fs)
  case Nil
  show ?case by simp
next
  case (Cons q files)
  let ?fs1 = "fst (processImage env q fs)"
  have same: "?fs1 p = fs p"
    by (rule processImage_spares_optimized [OF assms(1) Cons.prems])
  then have "already_optimized env ?fs1 p"
    using Cons.prems already_optimized_local [of ?fs1 p fs env] by simp
  from Cons.IH [OF this] same show ?case
    by (simp add: split_beta)
qed

lemma main_v2_store:
  "fst (snd (main_v2 env tree fs)) =
     (case process_cwd env of Inl e \<Rightarrow> fs
      | Inr cwd \<Rightarrow> fst (each_in_turn env (fst (getAllFilesIterative tree)) fs))"
  using process_batches_plain [of env "fst (getAllFilesIterative tree)" 0 0 fs]
  by (simp add: main_v2_def main_def findAndProcessImages_v2_def split_beta split: sum.splits)

lemma main_v1_store:
  "fst (snd (main_v1 env tree fs)) =
     (case glob_patterns env tree IMAGE_EXTENSIONS [] of Inl e \<Rightarrow> fs
      | Inr files \<Rightarrow> fst (each_in_turn env files fs))"
  by (simp add: main_v1_def main_def findAndProcessImages_v1_def split_beta process_each_plain
      split: sum.splits)

text \<open>
  The exit code: the glob revision always exits with 0, and the worklist revision exits
  with 1 exactly when \<^verbatim>\<open>process.cwd()\<close> throws.
\<close>

lemma main_v1_exit: "fst (main_v1 env tree fs) = 0"
  by (simp add: main_v1_def main_def findAndProcessImages_v1_def split_beta split: sum.splits)

lemma main_v2_exit: "fst (main_v2 env tree fs) = (case process_cwd env of Inl e \<Rightarrow> 1 | Inr cwd \<Rightarrow> 0)"
  by (simp add: main_v2_def main_def findAndProcessImages_v2_def split_beta split: sum.splits)

subsection \<open>Running again (C9)\<close>

text \<open>
  C9, as amended. The codecs are functions of their input, hence deterministic. In either
  revision, a run leaves byte-identical every image file that is at most \<open>MAX_WIDTH\<close> wide
  and whose recompression is not strictly smaller than the file; this holds for a first
  run and for any later one, whatever happens to the other files.
\<close>

theorem optimized_files_untouched:
  assumes "toLowerCase (extname p) \<in> set IMAGE_EXTENSIONS" and "already_optimized env fs p"
  shows "fst (snd (main_v2 env tree fs)) p = fs p \<and> fst (snd (main_v1 env tree fs)) p = fs p"
  using each_in_turn_spares_optimized [OF assms]
  by (simp add: main_v1_store main_v2_store split: sum.splits)

theorem optimized_files_untouched_witness:
  "toLowerCase (extname ''a.jpg'') \<in> set IMAGE_EXTENSIONS
   \<and> already_optimized toy_env [''a.jpg'' \<mapsto> [10]] ''a.jpg''
   \<and> fst (snd (main_v2 toy_env single_tree [''a.jpg'' \<mapsto> [10]])) ''a.jpg'' = Some [10]
   \<and> Log KeepOriginal \<in> set (snd (snd (main_v2 toy_env single_tree [''a.jpg'' \<mapsto> [10]])))
   \<and> toLowerCase (extname ''/srv/uploads/a.jpg'') \<in> set IMAGE_EXTENSIONS
   \<and> already_optimized toy_env [''/srv/uploads/a.jpg'' \<mapsto> [10]] ''/srv/uploads/a.jpg''
   \<and> fst (snd (main_v1 toy_env single_tree [''/srv/uploads/a.jpg'' \<mapsto> [10]])) ''/srv/uploads/a.jpg'' = Some [10]
   \<and> Log KeepOriginal \<in> set (snd (snd (main_v1 toy_env single_tree [''/srv/uploads/a.jpg'' \<mapsto> [10]])))"
proof -
  have img: "toLowerCase (extname ''a.jpg'') \<in> set IMAGE_EXTENSIONS"
    "toLowerCase (extname ''/srv/uploads/a.jpg'') \<in> set IMAGE_EXTENSIONS"
    by (simp_all add: extname_def last_segment_def toLowerCase_def toLowerCase_char_def IMAGE_EXTENSIONS_def)
  have settled: "already_optimized toy_env [''a.jpg'' \<mapsto> [10]] ''a.jpg''"
    "already_optimized toy_env [''/srv/uploads/a.jpg'' \<mapsto> [10]] ''/srv/uploads/a.jpg''"
    by (simp_all add: already_optimized_def toy_env_def MAX_WIDTH_def select_plugins_def
        extname_def last_segment_def toLowerCase_def toLowerCase_char_def)
  have found: "getAllFilesIterative single_tree = ([''a.jpg''], [])"
    "glob_patterns toy_env single_tree IMAGE_EXTENSIONS [] = Inr [''/srv/uploads/a.jpg'']"
    by code_simp+
  have cwd: "process_cwd toy_env = Inr ''/srv/uploads''"
    by (simp add: toy_env_def)
  have kept: "Log KeepOriginal \<in> set (snd (processImage toy_env ''a.jpg'' [''a.jpg'' \<mapsto> [10]]))"
    "Log KeepOriginal \<in> set (snd (processImage toy_env ''/srv/uploads/a.jpg'' [''/srv/uploads/a.jpg'' \<mapsto> [10]]))"
    by (simp_all add: run_defs toy_env_def)
  have logged: "Log KeepOriginal \<in> set (snd (snd (main_v2 toy_env single_tree [''a.jpg'' \<mapsto> [10]])))"
    "Log KeepOriginal \<in> set (snd (snd (main_v1 toy_env single_tree [''/srv/uploads/a.jpg'' \<mapsto> [10]])))"
    using kept
    by (simp_all add: main_v2_def main_v1_def main_def findAndProcessImages_v2_def
        findAndProcessImages_v1_def found cwd process_batches_step process_batches_done
        batchSize_def slice_def split_beta Let_def)
  from optimized_files_untouched [OF img(1) settled(1), of single_tree]
    optimized_files_untouched [OF img(2) settled(2), of single_tree]
    img settled logged
  show ?thesis
    by simp
qed

text \<open>
  C9, as stated, fails: determinism does not make the output of a run a fixed point of the
  compressor. With the deterministic sample codecs, a first run shortens \<^verbatim>\<open>a.jpg\<close>
  (width 1000) from four bytes to three, and a second run on the result shortens it again
  to two.
\<close>

theorem second_run_reduces_again:
  "fst (snd (main_v2 toy_env single_tree single_store)) ''a.jpg'' = Some [10, 2, 3]
   \<and> fst (snd (main_v2 toy_env single_tree (fst (snd (main_v2 toy_env single_tree single_store))))) ''a.jpg''
       = Some [10, 3]"
proof -
  have files: "fst (getAllFilesIterative single_tree) = [''a.jpg'']"
    by code_simp
  have cwd: "process_cwd toy_env = Inr ''/srv/uploads''"
    by (simp add: toy_env_def)
  have first: "fst (processImage toy_env ''a.jpg'' single_store) = single_store(''a.jpg'' \<mapsto> [10, 2, 3])"
    by (simp add: run_defs toy_env_def single_store_def fun_eq_iff)
  have second: "fst (processImage toy_env ''a.jpg'' (single_store(''a.jpg'' \<mapsto> [10, 2, 3]))) ''a.jpg'' = Some [10, 3]"
    by (simp add: run_defs toy_env_def single_store_def)
  show ?thesis
    by (simp add: main_v2_store files cwd first second)
qed

subsection \<open>Exit code (C5)\<close>

text \<open>
  C5. When the root directory cannot be listed, both revisions log and exit with code 0:
  the worklist catches the listing error of the root like that of any other directory, and
  the failure of the glob call is caught and logged inside \<^verbatim>\<open>findAndProcessImages\<close>. When \<^verbatim>\<open>process.cwd()\<close> throws, the glob revision logs the
  error in its own \<^verbatim>\<open>catch\<close> and exits with 0, so the \<^verbatim>\<open>process.exit(1)\<close> of its
  last statement is never reached; the worklist revision exits with 1.
\<close>

theorem root_failure_exits_zero:
  "main_v2 toy_env unreadable_root toy_store =
     (0, toy_store,
      [Log Starting, Log StartTime, Log (CurrentDirectory ''/srv/uploads''),
       Log (ErrorReadingDirectory ''.'' ''EACCES: permission denied, scandir''),
       Log (Found 0), Log AllProcessed, Log TotalTime, Log Started, Log Finished])
   \<and> main_v1 toy_env unreadable_root toy_store
       = (0, toy_store, [Log (ErrorFinding ''EACCES: permission denied, scandir'')])
   \<and> main_v1 gone_cwd_env toy_tree toy_store
       = (0, toy_store, [Log (ErrorFinding ''ENOENT: no such file or directory, uv_cwd'')])
   \<and> fst (main_v2 gone_cwd_env toy_tree toy_store) = 1"
  by (simp add: main_v1_def main_v2_def main_def findAndProcessImages_v1_def findAndProcessImages_v2_def
      getAllFilesIterative_def unreadable_root_def globPromise_def IMAGE_EXTENSIONS_def
      toy_env_def gone_cwd_env_def process_batches_done)

end
